theory Spec2Isabelle
  imports Main
begin

section \<open>The write-ahead log of xv6 (kernel/log.c)\<close>

text \<open>
  A shallow embedding of \<^verbatim>\<open>kernel/log.c\<close>. C \<^verbatim>\<open>int\<close> values are modelled as
  \<^typ>\<open>int\<close>; the arithmetic of the file (\<^verbatim>\<open>tail + 1\<close>, \<^verbatim>\<open>size - 1\<close>,
  \<^verbatim>\<open>outstanding + 1\<close>, ...) agrees with C wherever no signed overflow occurs, and
  signed overflow has no defined behaviour in C. Arrays are functions on indices together with
  an explicit bounds check at every subscript: a subscript outside the declared bounds is
  the error \<open>OutOfBounds\<close>, a call of \<^verbatim>\<open>panic\<close> is the error \<open>Panic msg\<close>.
\<close>

subsection \<open>Constants of param.h and fs.h\<close>

text \<open>
  The constants \<^verbatim>\<open>LOGSIZE\<close>, \<^verbatim>\<open>MAXOPBLOCKS\<close> and \<^verbatim>\<open>BSIZE\<close> are defined in headers that are
  not part of the sources at hand; they are parameters of every function.
\<close>

record params =
  LOGSIZE :: int
  MAXOPBLOCKS :: int
  BSIZE :: int

datatype error = Panic string | OutOfBounds

subsection \<open>Data\<close>

text \<open>
  \<^verbatim>\<open>struct logheader { int n; int block[LOGSIZE]; }\<close>: the subscripts \<open>0 .. LOGSIZE - 1\<close>
  of \<open>block\<close> are the valid ones.
\<close>

record logheader =
  n :: int
  block :: "int \<Rightarrow> int"

text \<open>\<^verbatim>\<open>struct log\<close>; the spinlock is the field \<open>locked\<close> of the system state below.\<close>

record log =
  start :: int
  size_log :: int
  outstanding :: int
  committing :: int
  dev :: int
  lh :: logheader

text \<open>The two fields of \<^verbatim>\<open>struct superblock\<close> that \<^verbatim>\<open>initlog\<close> reads.\<close>

record superblock =
  logstart :: int
  nlog :: int

text \<open>
  A \<^verbatim>\<open>struct buf *\<close> is identified by its device and block number. The \<^verbatim>\<open>data\<close> of a
  block (\<^verbatim>\<open>uchar data[BSIZE]\<close>) is viewed as an array of 4-byte integers, which is how
  \<^verbatim>\<open>read_head\<close> and \<^verbatim>\<open>write_head\<close> view it through \<^verbatim>\<open>struct logheader *\<close>: word \<open>0\<close>
  is the field \<open>n\<close>, word \<open>i + 1\<close> is \<open>block[i]\<close>.
\<close>

type_synonym bufid = "int \<times> int"
type_synonym blockdata = "int \<Rightarrow> int"

definition blockno :: "bufid \<Rightarrow> int" where
  "blockno b = snd b"

text \<open>
  The state of the machine: the global \<^verbatim>\<open>logger\<close>, the buffer cache, the disk, and the
  state of the lock and of the wait channel. \<open>writes\<close> is the history of the completed
  disk writes, oldest first; it is only ever appended to. \<open>write_ctx\<close> holds, for each
  of these writes in the same order, whether the lock was held and what \<open>committing\<close>
  was when the write was issued.
\<close>

record sys =
  logger :: log
  cache :: "bufid \<Rightarrow> blockdata option"
  refcnt :: "bufid \<Rightarrow> int"
  disk :: "bufid \<Rightarrow> blockdata"
  writes :: "(bufid \<times> blockdata) list"
  write_ctx :: "(bool \<times> int) list"
  locked :: bool
  wakeups :: nat

subsection \<open>The collaborators: buffer cache, lock, wait channel\<close>

text \<open>
  Modelled from the spec: the buffer cache (bio.c: \<^verbatim>\<open>bread\<close>, \<^verbatim>\<open>bwrite\<close>, \<^verbatim>\<open>brelse\<close>,
  \<^verbatim>\<open>bpin\<close>, \<^verbatim>\<open>bunpin\<close>), the spinlock (\<^verbatim>\<open>initlock\<close>, \<^verbatim>\<open>acquire\<close>, \<^verbatim>\<open>release\<close>) and
  \<^verbatim>\<open>wakeup\<close> are not part of the sources at hand. The cache fetches a block by number and
  counts references to it; a write is synchronous; pinning is one more reference, as the
  comment above \<^verbatim>\<open>log_write\<close> says. Eviction of unreferenced buffers is not modelled.
\<close>

definition bdata :: "sys \<Rightarrow> bufid \<Rightarrow> blockdata" where
  "bdata s b = (case cache s b of Some d \<Rightarrow> d | None \<Rightarrow> disk s b)"

definition bread :: "bufid \<Rightarrow> sys \<Rightarrow> sys" where
  "bread b s = s\<lparr>cache := (cache s)(b \<mapsto> bdata s b), refcnt := (refcnt s)(b := refcnt s b + 1)\<rparr>"

definition bwrite :: "bufid \<Rightarrow> sys \<Rightarrow> sys" where
  "bwrite b s =
     s\<lparr>disk := (disk s)(b := bdata s b), writes := writes s @ [(b, bdata s b)],
       write_ctx := write_ctx s @ [(locked s, committing (logger s))]\<rparr>"

definition brelse :: "bufid \<Rightarrow> sys \<Rightarrow> sys" where
  "brelse b s = s\<lparr>refcnt := (refcnt s)(b := refcnt s b - 1)\<rparr>"

definition bpin :: "bufid \<Rightarrow> sys \<Rightarrow> sys" where
  "bpin b s = s\<lparr>refcnt := (refcnt s)(b := refcnt s b + 1)\<rparr>"

definition bunpin :: "bufid \<Rightarrow> sys \<Rightarrow> sys" where
  "bunpin b s = s\<lparr>refcnt := (refcnt s)(b := refcnt s b - 1)\<rparr>"

text \<open>\<^verbatim>\<open>memmove(dst->data, src->data, BSIZE)\<close> on two fetched buffers.\<close>

definition memmove_data :: "bufid \<Rightarrow> bufid \<Rightarrow> sys \<Rightarrow> sys" where
  "memmove_data dst src s = s\<lparr>cache := (cache s)(dst \<mapsto> bdata s src)\<rparr>"

text \<open>A store of one word into the data of a fetched buffer.\<close>

definition set_word :: "bufid \<Rightarrow> int \<Rightarrow> int \<Rightarrow> sys \<Rightarrow> sys" where
  "set_word b w v s = s\<lparr>cache := (cache s)(b \<mapsto> (bdata s b)(w := v))\<rparr>"

definition initlock :: "sys \<Rightarrow> sys" where
  "initlock s = s\<lparr>locked := False\<rparr>"

definition acquire :: "sys \<Rightarrow> sys" where
  "acquire s = s\<lparr>locked := True\<rparr>"

definition release :: "sys \<Rightarrow> sys" where
  "release s = s\<lparr>locked := False\<rparr>"

definition wakeup :: "sys \<Rightarrow> sys" where
  "wakeup s = s\<lparr>wakeups := Suc (wakeups s)\<rparr>"

subsection \<open>Updates of the fields of \<^verbatim>\<open>logger\<close>\<close>

definition set_n :: "int \<Rightarrow> sys \<Rightarrow> sys" where
  "set_n v s = s\<lparr>logger := (logger s)\<lparr>lh := (lh (logger s))\<lparr>n := v\<rparr>\<rparr>\<rparr>"

definition set_block :: "int \<Rightarrow> int \<Rightarrow> sys \<Rightarrow> sys" where
  "set_block i v s =
     s\<lparr>logger := (logger s)\<lparr>lh := (lh (logger s))\<lparr>block := (block (lh (logger s)))(i := v)\<rparr>\<rparr>\<rparr>"

definition set_outstanding :: "int \<Rightarrow> sys \<Rightarrow> sys" where
  "set_outstanding v s = s\<lparr>logger := (logger s)\<lparr>outstanding := v\<rparr>\<rparr>"

definition set_committing :: "int \<Rightarrow> sys \<Rightarrow> sys" where
  "set_committing v s = s\<lparr>logger := (logger s)\<lparr>committing := v\<rparr>\<rparr>"

text \<open>The header block, log slot \<open>i\<close> and the home block of entry \<open>i\<close>.\<close>

definition hdr_buf :: "sys \<Rightarrow> bufid" where
  "hdr_buf s = (dev (logger s), start (logger s))"

definition slot_buf :: "sys \<Rightarrow> int \<Rightarrow> bufid" where
  "slot_buf s i = (dev (logger s), start (logger s) + i + 1)"

definition home_buf :: "sys \<Rightarrow> int \<Rightarrow> bufid" where
  "home_buf s i = (dev (logger s), block (lh (logger s)) i)"

text \<open>
  Bounds of the subscripts: \<open>block[i]\<close> of the in-memory header, and the fields \<open>n\<close> and
  \<open>block[i]\<close> of the header viewed inside the \<open>BSIZE\<close> bytes of a buffer.
\<close>

definition idx_ok :: "params \<Rightarrow> int \<Rightarrow> bool" where
  "idx_ok p i \<longleftrightarrow> 0 \<le> i \<and> i < LOGSIZE p"

definition hdr_n_ok :: "params \<Rightarrow> bool" where
  "hdr_n_ok p \<longleftrightarrow> 4 \<le> BSIZE p"

definition hdr_idx_ok :: "params \<Rightarrow> int \<Rightarrow> bool" where
  "hdr_idx_ok p i \<longleftrightarrow> idx_ok p i \<and> 4 * (i + 2) \<le> BSIZE p"

text \<open>\<^verbatim>\<open>sizeof(struct logheader)\<close>, an \<^verbatim>\<open>int\<close> being 4 bytes.\<close>

definition sizeof_logheader :: "params \<Rightarrow> int" where
  "sizeof_logheader p = 4 * (1 + LOGSIZE p)"

subsection \<open>\<^verbatim>\<open>install_trans\<close>\<close>

definition install_trans_body :: "params \<Rightarrow> int \<Rightarrow> int \<Rightarrow> sys \<Rightarrow> error + sys" where
  "install_trans_body p recovering tail s =
     (if \<not> idx_ok p tail then Inl OutOfBounds
      else
        let lbuf = slot_buf s tail;
            dbuf = home_buf s tail;
            s1 = bread lbuf s;
            s2 = bread dbuf s1;
            s3 = memmove_data dbuf lbuf s2;
            s4 = bwrite dbuf s3;
            s5 = (if recovering = 0 then bunpin dbuf s4 else s4);
            s6 = brelse lbuf s5
        in Inr (brelse dbuf s6))"

function install_trans_loop :: "params \<Rightarrow> int \<Rightarrow> int \<Rightarrow> sys \<Rightarrow> error + sys" where
  "install_trans_loop p recovering tail s =
     (if tail < n (lh (logger s)) then
        (case install_trans_body p recovering tail s of
           Inl e \<Rightarrow> Inl e
         | Inr s' \<Rightarrow> install_trans_loop p recovering (tail + 1) s')
      else Inr s)"
  by pat_completeness auto
termination
  by (relation "measure (\<lambda>(p, r, t, s). nat (n (lh (logger s)) - t))")
    (auto simp: install_trans_body_def Let_def bread_def bwrite_def brelse_def bunpin_def
      memmove_data_def split: if_splits)

definition install_trans :: "params \<Rightarrow> int \<Rightarrow> sys \<Rightarrow> error + sys" where
  "install_trans p recovering s = install_trans_loop p recovering 0 s"

subsection \<open>\<^verbatim>\<open>read_head\<close> and \<^verbatim>\<open>write_head\<close>\<close>

definition read_head_body :: "params \<Rightarrow> bufid \<Rightarrow> int \<Rightarrow> sys \<Rightarrow> error + sys" where
  "read_head_body p buf i s =
     (if \<not> hdr_idx_ok p i then Inl OutOfBounds
      else Inr (set_block i (bdata s buf (i + 1)) s))"

function read_head_loop :: "params \<Rightarrow> bufid \<Rightarrow> int \<Rightarrow> sys \<Rightarrow> error + sys" where
  "read_head_loop p buf i s =
     (if i < n (lh (logger s)) then
        (case read_head_body p buf i s of
           Inl e \<Rightarrow> Inl e
         | Inr s' \<Rightarrow> read_head_loop p buf (i + 1) s')
      else Inr s)"
  by pat_completeness auto
termination
  by (relation "measure (\<lambda>(p, b, i, s). nat (n (lh (logger s)) - i))")
    (auto simp: read_head_body_def set_block_def split: if_splits)

definition read_head :: "params \<Rightarrow> sys \<Rightarrow> error + sys" where
  "read_head p s =
     (let buf = hdr_buf s;
          s1 = bread buf s
      in if \<not> hdr_n_ok p then Inl OutOfBounds
         else
           (case read_head_loop p buf 0 (set_n (bdata s1 buf 0) s1) of
              Inl e \<Rightarrow> Inl e
            | Inr s2 \<Rightarrow> Inr (brelse buf s2)))"

definition write_head_body :: "params \<Rightarrow> bufid \<Rightarrow> int \<Rightarrow> sys \<Rightarrow> error + sys" where
  "write_head_body p buf i s =
     (if \<not> hdr_idx_ok p i then Inl OutOfBounds
      else Inr (set_word buf (i + 1) (block (lh (logger s)) i) s))"

function write_head_loop :: "params \<Rightarrow> bufid \<Rightarrow> int \<Rightarrow> sys \<Rightarrow> error + sys" where
  "write_head_loop p buf i s =
     (if i < n (lh (logger s)) then
        (case write_head_body p buf i s of
           Inl e \<Rightarrow> Inl e
         | Inr s' \<Rightarrow> write_head_loop p buf (i + 1) s')
      else Inr s)"
  by pat_completeness auto
termination
  by (relation "measure (\<lambda>(p, b, i, s). nat (n (lh (logger s)) - i))")
    (auto simp: write_head_body_def set_word_def split: if_splits)

definition write_head :: "params \<Rightarrow> sys \<Rightarrow> error + sys" where
  "write_head p s =
     (let buf = hdr_buf s;
          s1 = bread buf s
      in if \<not> hdr_n_ok p then Inl OutOfBounds
         else
           (case write_head_loop p buf 0 (set_word buf 0 (n (lh (logger s1))) s1) of
              Inl e \<Rightarrow> Inl e
            | Inr s2 \<Rightarrow> Inr (brelse buf (bwrite buf s2))))"

subsection \<open>\<^verbatim>\<open>recover_from_log\<close> and \<^verbatim>\<open>initlog\<close>\<close>

definition recover_from_log :: "params \<Rightarrow> sys \<Rightarrow> error + sys" where
  "recover_from_log p s =
     (case read_head p s of
        Inl e \<Rightarrow> Inl e
      | Inr s1 \<Rightarrow>
          (case install_trans p 1 s1 of
             Inl e \<Rightarrow> Inl e
           | Inr s2 \<Rightarrow> write_head p (set_n 0 s2)))"

definition initlog :: "params \<Rightarrow> int \<Rightarrow> superblock \<Rightarrow> sys \<Rightarrow> error + sys" where
  "initlog p dv sb s =
     (if sizeof_logheader p \<ge> BSIZE p then Inl (Panic ''initlog: too big logheader'')
      else
        let s1 = initlock s;
            s2 = s1\<lparr>logger := (logger s1)\<lparr>start := logstart sb, size_log := nlog sb, dev := dv\<rparr>\<rparr>
        in recover_from_log p s2)"

subsection \<open>\<^verbatim>\<open>begin_op\<close> and \<^verbatim>\<open>end_op\<close>\<close>

text \<open>
  One test of the loop of \<^verbatim>\<open>begin_op\<close>, made with the lock held: \<open>None\<close> is a call of
  \<^verbatim>\<open>sleep\<close>, \<open>Some\<close> is the admission.
\<close>

definition begin_op_test :: "params \<Rightarrow> sys \<Rightarrow> sys option" where
  "begin_op_test p s =
     (if committing (logger s) \<noteq> 0 then None
      else if n (lh (logger s)) + (outstanding (logger s) + 1) * MAXOPBLOCKS p > LOGSIZE p
        then None
      else Some (release (set_outstanding (outstanding (logger s) + 1) s)))"

text \<open>
  \<^verbatim>\<open>sleep\<close> gives the lock up and returns with the lock held once the channel is woken; what
  the other threads have made of the state by then is the next element of \<open>later\<close>. The
  caller that is never woken again does not return: \<open>None\<close>.
\<close>

fun begin_op_loop :: "params \<Rightarrow> sys \<Rightarrow> sys list \<Rightarrow> sys option" where
  "begin_op_loop p s later =
     (case begin_op_test p s of
        Some s' \<Rightarrow> Some s'
      | None \<Rightarrow>
          (case later of
             [] \<Rightarrow> None
           | t # later' \<Rightarrow> begin_op_loop p (acquire t) later'))"

definition begin_op :: "params \<Rightarrow> sys \<Rightarrow> sys list \<Rightarrow> sys option" where
  "begin_op p s later = begin_op_loop p (acquire s) later"

subsection \<open>\<^verbatim>\<open>write_log\<close> and \<^verbatim>\<open>commit\<close>\<close>

definition write_log_body :: "params \<Rightarrow> int \<Rightarrow> sys \<Rightarrow> error + sys" where
  "write_log_body p tail s =
     (if \<not> idx_ok p tail then Inl OutOfBounds
      else
        let to = slot_buf s tail;
            from = home_buf s tail;
            s1 = bread to s;
            s2 = bread from s1;
            s3 = memmove_data to from s2;
            s4 = bwrite to s3;
            s5 = brelse from s4
        in Inr (brelse to s5))"

function write_log_loop :: "params \<Rightarrow> int \<Rightarrow> sys \<Rightarrow> error + sys" where
  "write_log_loop p tail s =
     (if tail < n (lh (logger s)) then
        (case write_log_body p tail s of
           Inl e \<Rightarrow> Inl e
         | Inr s' \<Rightarrow> write_log_loop p (tail + 1) s')
      else Inr s)"
  by pat_completeness auto
termination
  by (relation "measure (\<lambda>(p, t, s). nat (n (lh (logger s)) - t))")
    (auto simp: write_log_body_def Let_def bread_def bwrite_def brelse_def
      memmove_data_def split: if_splits)

definition write_log :: "params \<Rightarrow> sys \<Rightarrow> error + sys" where
  "write_log p s = write_log_loop p 0 s"

definition commit :: "params \<Rightarrow> sys \<Rightarrow> error + sys" where
  "commit p s =
     (if n (lh (logger s)) > 0 then
        (case write_log p s of
           Inl e \<Rightarrow> Inl e
         | Inr s1 \<Rightarrow>
             (case write_head p s1 of
                Inl e \<Rightarrow> Inl e
              | Inr s2 \<Rightarrow>
                  (case install_trans p 0 s2 of
                     Inl e \<Rightarrow> Inl e
                   | Inr s3 \<Rightarrow> write_head p (set_n 0 s3))))
      else Inr s)"

definition end_op :: "params \<Rightarrow> sys \<Rightarrow> error + sys" where
  "end_op p s =
     (let s1 = acquire s;
          s2 = set_outstanding (outstanding (logger s1) - 1) s1
      in if committing (logger s2) \<noteq> 0 then Inl (Panic ''logger.committing'')
         else if outstanding (logger s2) = 0 then
           (case commit p (release (set_committing 1 s2)) of
              Inl e \<Rightarrow> Inl e
            | Inr s3 \<Rightarrow> Inr (release (wakeup (set_committing 0 (acquire s3)))))
         else Inr (release (wakeup s2)))"

subsection \<open>\<^verbatim>\<open>log_write\<close>\<close>

text \<open>The scan for an entry that holds the block number; the result is the final \<open>i\<close>.\<close>

function log_write_scan :: "params \<Rightarrow> int \<Rightarrow> int \<Rightarrow> sys \<Rightarrow> error + int" where
  "log_write_scan p bno i s =
     (if i < n (lh (logger s)) then
        (if \<not> idx_ok p i then Inl OutOfBounds
         else if block (lh (logger s)) i = bno then Inr i
         else log_write_scan p bno (i + 1) s)
      else Inr i)"
  by pat_completeness auto
termination
  by (relation "measure (\<lambda>(p, b, i, s). nat (n (lh (logger s)) - i))") auto

definition log_write :: "params \<Rightarrow> bufid \<Rightarrow> sys \<Rightarrow> error + sys" where
  "log_write p b s =
     (let s1 = acquire s
      in if n (lh (logger s1)) \<ge> LOGSIZE p \<or> n (lh (logger s1)) \<ge> size_log (logger s1) - 1
           then Inl (Panic ''too big a transaction'')
         else if outstanding (logger s1) < 1 then Inl (Panic ''log_write outside of trans'')
         else
           (case log_write_scan p (blockno b) 0 s1 of
              Inl e \<Rightarrow> Inl e
            | Inr i \<Rightarrow>
                if \<not> idx_ok p i then Inl OutOfBounds
                else
                  let s2 = set_block i (blockno b) s1;
                      s3 = (if i = n (lh (logger s2))
                            then set_n (n (lh (logger s2)) + 1) (bpin b s2) else s2)
                  in Inr (release s3)))"

subsection \<open>Power loss\<close>

text \<open>
  A crash loses the memory and keeps the disk. The disk holds the writes that were
  completed: \<open>replay ws d\<close> is the disk \<open>d\<close> after the writes \<open>ws\<close>, and \<open>boot d\<close> is the
  machine that starts on the disk \<open>d\<close>, with zeroed globals and an empty buffer cache.
\<close>

definition replay :: "(bufid \<times> blockdata) list \<Rightarrow> (bufid \<Rightarrow> blockdata) \<Rightarrow> (bufid \<Rightarrow> blockdata)" where
  "replay ws d = fold (\<lambda>w d'. d'(fst w := snd w)) ws d"

definition boot :: "(bufid \<Rightarrow> blockdata) \<Rightarrow> sys" where
  "boot d =
     \<lparr>logger = \<lparr>start = 0, size_log = 0, outstanding = 0, committing = 0, dev = 0,
                lh = \<lparr>n = 0, block = (\<lambda>_. 0)\<rparr>\<rparr>,
      cache = (\<lambda>_. None), refcnt = (\<lambda>_. 0), disk = d, writes = [], write_ctx = [],
      locked = False, wakeups = 0\<rparr>"

text \<open>
  The writes that the run from \<open>s\<close> to \<open>s'\<close> added, and the disk on which the machine
  restarts when the power fails after \<open>k\<close> of them.
\<close>

definition new_writes :: "sys \<Rightarrow> sys \<Rightarrow> (bufid \<times> blockdata) list" where
  "new_writes s s' = drop (length (writes s)) (writes s')"

definition crash_disk :: "sys \<Rightarrow> sys \<Rightarrow> nat \<Rightarrow> (bufid \<Rightarrow> blockdata)" where
  "crash_disk s s' k = replay (take k (new_writes s s')) (disk s)"

subsection \<open>Notions used in the statements\<close>

text \<open>
  The size of the header record, with 4-byte integers, fits a block; \<^verbatim>\<open>initlog\<close> asks for
  more (see \<open>initlog\<close> above).
\<close>

definition hdr_fits :: "params \<Rightarrow> bool" where
  "hdr_fits p \<longleftrightarrow> 0 \<le> LOGSIZE p \<and> sizeof_logheader p \<le> BSIZE p"

text \<open>
  The home block of every entry lies outside the part of the log region that the
  transaction uses: it is neither the header block nor one of the slots \<open>1 .. n\<close>.
\<close>

definition homes_apart :: "log \<Rightarrow> bool" where
  "homes_apart l \<longleftrightarrow>
     (\<forall>i\<in>{0..<n (lh l)}. \<forall>j\<in>{0..n (lh l)}. block (lh l) i \<noteq> start l + j)"

text \<open>The block numbers of the header, in order, and whether a number is among them.\<close>

definition entries :: "log \<Rightarrow> int list" where
  "entries l = map (block (lh l)) [0..n (lh l) - 1]"

definition in_header :: "log \<Rightarrow> int \<Rightarrow> bool" where
  "in_header l bno \<longleftrightarrow> (\<exists>i\<in>{0..<n (lh l)}. block (lh l) i = bno)"

text \<open>
  The header as \<^verbatim>\<open>write_head\<close> lays it over the data \<open>old\<close> of the header block, and as
  \<^verbatim>\<open>read_head\<close> reads it from the data \<open>d\<close> into the in-memory header \<open>h\<close>;
  \<open>after_read s\<close> is \<open>s\<close> with the header read from its header block.
\<close>

definition hdr_image :: "logheader \<Rightarrow> blockdata \<Rightarrow> blockdata" where
  "hdr_image h old = (\<lambda>w. if w = 0 then n h else if 1 \<le> w \<and> w \<le> n h then block h (w - 1) else old w)"

definition hdr_read :: "blockdata \<Rightarrow> logheader \<Rightarrow> logheader" where
  "hdr_read d h = h\<lparr>n := d 0, block := (\<lambda>i. if 0 \<le> i \<and> i < d 0 then d (i + 1) else block h i)\<rparr>"

definition after_read :: "sys \<Rightarrow> sys" where
  "after_read s = s\<lparr>logger := (logger s)\<lparr>lh := hdr_read (bdata s (hdr_buf s)) (lh (logger s))\<rparr>\<rparr>"

text \<open>
  Lists of disk writes, in the order in which they happen, for the entries from \<open>k\<close> on:
  each home block's cached contents to its slot (\<^verbatim>\<open>write_log\<close>), each slot's contents to
  its home block (\<^verbatim>\<open>install_trans\<close>), and the writes of a whole commit. \<open>unpins s k b\<close>
  counts the entries from \<open>k\<close> on whose home block is \<open>b\<close>.
\<close>

definition log_writes :: "sys \<Rightarrow> int \<Rightarrow> (bufid \<times> blockdata) list" where
  "log_writes s k =
     map (\<lambda>i. (slot_buf s i, bdata s (home_buf s i))) [k..n (lh (logger s)) - 1]"

definition install_writes :: "sys \<Rightarrow> int \<Rightarrow> (bufid \<times> blockdata) list" where
  "install_writes s k =
     map (\<lambda>i. (home_buf s i, bdata s (slot_buf s i))) [k..n (lh (logger s)) - 1]"

definition home_writes :: "sys \<Rightarrow> (bufid \<times> blockdata) list" where
  "home_writes s =
     map (\<lambda>i. (home_buf s i, bdata s (home_buf s i))) [0..n (lh (logger s)) - 1]"

definition commit_writes :: "sys \<Rightarrow> (bufid \<times> blockdata) list" where
  "commit_writes s =
     log_writes s 0
     @ [(hdr_buf s, hdr_image (lh (logger s)) (bdata s (hdr_buf s)))]
     @ home_writes s
     @ [(hdr_buf s, (hdr_image (lh (logger s)) (bdata s (hdr_buf s)))(0 := 0))]"

definition unpins :: "sys \<Rightarrow> int \<Rightarrow> bufid \<Rightarrow> int" where
  "unpins s k b = int (length (filter (\<lambda>i. home_buf s i = b) [k..n (lh (logger s)) - 1]))"

text \<open>
  The state in which \<^verbatim>\<open>initlog\<close> calls \<^verbatim>\<open>recover_from_log\<close>, and the restart after a power
  loss: \<^verbatim>\<open>initlog\<close>, with the device and the log region of \<open>s\<close>, on the machine booted on
  the disk \<open>d\<close>.
\<close>

definition with_geometry :: "int \<Rightarrow> superblock \<Rightarrow> sys \<Rightarrow> sys" where
  "with_geometry dv sb s =
     (initlock s)\<lparr>logger := (logger (initlock s))\<lparr>start := logstart sb, size_log := nlog sb,
        dev := dv\<rparr>\<rparr>"

definition restart :: "params \<Rightarrow> sys \<Rightarrow> (bufid \<Rightarrow> blockdata) \<Rightarrow> error + sys" where
  "restart p s d =
     initlog p (dev (logger s)) \<lparr>logstart = start (logger s), nlog = size_log (logger s)\<rparr>
       (boot d)"

text \<open>
  A sequence of calls of \<^verbatim>\<open>log_write\<close>, one per buffer of the list, which stops at the first
  one that fails; and the caller's store into the data of a buffer (the
  \<^verbatim>\<open>modify bp->data[]\<close> of the comment above \<^verbatim>\<open>log_write\<close>).
\<close>

fun log_write_all :: "params \<Rightarrow> bufid list \<Rightarrow> sys \<Rightarrow> error + sys" where
  "log_write_all p [] s = Inr s"
| "log_write_all p (b # bs) s =
     (case log_write p b s of Inl e \<Rightarrow> Inl e | Inr s' \<Rightarrow> log_write_all p bs s')"

definition buf_modify :: "bufid \<Rightarrow> blockdata \<Rightarrow> sys \<Rightarrow> sys" where
  "buf_modify b d s = s\<lparr>cache := (cache s)(b \<mapsto> d)\<rparr>"

text \<open>
  The states of a running system. It starts with \<^verbatim>\<open>initlog\<close>, from any state of the
  machine (any disk, after any crash), on a superblock whose log region holds at least the
  header block. Then the operations of the log are called in any order; a call that
  fails (\<open>Inl\<close>) or never returns (\<open>None\<close>) leads nowhere. A \<^verbatim>\<open>begin_op\<close> that sleeps wakes up
  in states that are reachable themselves. Whatever else runs may change everything but
  \<^verbatim>\<open>logger\<close>.
\<close>

inductive reachable :: "params \<Rightarrow> sys \<Rightarrow> bool" for p :: params where
  initialize: "1 \<le> nlog sb \<Longrightarrow> initlog p dv sb s0 = Inr s \<Longrightarrow> reachable p s"
| enter: "reachable p s \<Longrightarrow> \<forall>t\<in>set later. reachable p t \<Longrightarrow> begin_op p s later = Some s'
          \<Longrightarrow> reachable p s'"
| record_block: "reachable p s \<Longrightarrow> log_write p b s = Inr s' \<Longrightarrow> reachable p s'"
| exit: "reachable p s \<Longrightarrow> end_op p s = Inr s' \<Longrightarrow> reachable p s'"
| commit_step: "reachable p s \<Longrightarrow> commit p s = Inr s' \<Longrightarrow> reachable p s'"
| recover: "reachable p s \<Longrightarrow> recover_from_log p s = Inr s' \<Longrightarrow> reachable p s'"
| cache_activity: "reachable p s \<Longrightarrow> logger s' = logger s \<Longrightarrow> reachable p s'"

definition capacity_ok :: "params \<Rightarrow> log \<Rightarrow> bool" where
  "capacity_ok p l \<longleftrightarrow> 0 \<le> n (lh l) \<and> n (lh l) \<le> LOGSIZE p \<and> n (lh l) \<le> size_log l - 1"



subsection \<open>Concrete states\<close>

text \<open>
  Values for the constants, and three states on device \<open>1\<close> with the log
  region at blocks \<open>2 .. 32\<close>: an idle transaction with one operation admitted; a
  transaction of two blocks, \<open>40\<close> and \<open>41\<close>, dirty in the cache; and a disk on which a
  commit of the same two blocks was cut short after its header was written.
\<close>

definition xv6_params :: params where
  "xv6_params = \<lparr>LOGSIZE = 30, MAXOPBLOCKS = 10, BSIZE = 1024\<rparr>"

definition ex_log :: log where
  "ex_log = \<lparr>start = 2, size_log = 31, outstanding = 1, committing = 0, dev = 1,
             lh = \<lparr>n = 0, block = (\<lambda>_. 0)\<rparr>\<rparr>"

definition ex_sys :: sys where
  "ex_sys = (boot (\<lambda>b w. 0))\<lparr>logger := ex_log\<rparr>"

definition ex_tx :: sys where
  "ex_tx = ex_sys\<lparr>logger := ex_log\<lparr>lh := \<lparr>n = 2, block = (\<lambda>_. 0)(0 := 40, 1 := 41)\<rparr>\<rparr>,
                  cache := ((\<lambda>_. None)((1, 40) \<mapsto> (\<lambda>_. 7), (1, 41) \<mapsto> (\<lambda>_. 9)))\<rparr>"

definition ex_crashed :: sys where
  "ex_crashed =
     (boot ((\<lambda>b w. 0)((1, 2) := (\<lambda>_. 0)(0 := 2, 1 := 40, 2 := 41),
                         (1, 3) := (\<lambda>_. 7), (1, 4) := (\<lambda>_. 9))))
     \<lparr>logger := ex_log\<lparr>outstanding := 0\<rparr>\<rparr>"

section \<open>Properties\<close>

subsection \<open>What the buffer cache shows\<close>

text \<open>
  The code sees a block through \<open>bdata\<close> only: fetching, releasing and pinning leave it
  alone, a write leaves it alone and brings the disk to it.
\<close>

lemma bdata_bread: "bdata (bread b s) = bdata s"
  by (rule ext) (auto simp: bdata_def bread_def split: option.splits)

lemma bdata_bwrite: "bdata (bwrite b s) = bdata s"
  by (rule ext) (auto simp: bdata_def bwrite_def split: option.splits)

lemma bdata_brelse: "bdata (brelse b s) = bdata s"
  by (rule ext) (auto simp: bdata_def brelse_def split: option.splits)

lemma bdata_bpin: "bdata (bpin b s) = bdata s"
  by (rule ext) (auto simp: bdata_def bpin_def split: option.splits)

lemma bdata_bunpin: "bdata (bunpin b s) = bdata s"
  by (rule ext) (auto simp: bdata_def bunpin_def split: option.splits)

lemma bdata_memmove_data: "bdata (memmove_data dst src s) = (bdata s)(dst := bdata s src)"
  by (rule ext) (auto simp: bdata_def memmove_data_def split: option.splits)

lemma bdata_set_word: "bdata (set_word b w v s) = (bdata s)(b := (bdata s b)(w := v))"
  by (rule ext) (auto simp: bdata_def set_word_def split: option.splits)

lemma bdata_logger_update: "bdata (s\<lparr>logger := l\<rparr>) = bdata s"
  by (rule ext) (auto simp: bdata_def split: option.splits)

lemma bdata_locked_update: "bdata (s\<lparr>locked := l\<rparr>) = bdata s"
  by (rule ext) (auto simp: bdata_def split: option.splits)

lemma bdata_wakeups_update: "bdata (s\<lparr>wakeups := l\<rparr>) = bdata s"
  by (rule ext) (auto simp: bdata_def split: option.splits)

lemma bdata_boot: "bdata (boot d) = d"
  by (rule ext) (auto simp: bdata_def boot_def split: option.splits)

lemmas bdata_simps = bdata_bread bdata_bwrite bdata_brelse bdata_bpin bdata_bunpin
  bdata_memmove_data bdata_set_word bdata_logger_update bdata_locked_update bdata_wakeups_update

lemma write_log_body_views:
  assumes "idx_ok p t"
  shows "\<exists>s'. write_log_body p t s = Inr s' \<and> logger s' = logger s \<and> refcnt s' = refcnt s
    \<and> locked s' = locked s \<and> wakeups s' = wakeups s
    \<and> writes s' = writes s @ [(slot_buf s t, bdata s (home_buf s t))]
    \<and> disk s' = (disk s)(slot_buf s t := bdata s (home_buf s t))
    \<and> bdata s' = (bdata s)(slot_buf s t := bdata s (home_buf s t))"
  using assms
  apply (simp add: write_log_body_def Let_def bdata_simps)
  apply (auto simp: bread_def bwrite_def brelse_def memmove_data_def slot_buf_def home_buf_def bdata_def fun_eq_iff split: option.splits)
  done

subsection \<open>The loops\<close>

text \<open>
  The equations of the loops are unfolded by hand. Each loop is characterised by what it
  does to the fields of the state and to \<open>bdata\<close>, by induction along its own recursion.
\<close>

declare write_log_loop.simps [simp del] install_trans_loop.simps [simp del]
  read_head_loop.simps [simp del] write_head_loop.simps [simp del] log_write_scan.simps [simp del]

text \<open>Replaying writes.\<close>

lemma replay_Nil: "replay [] d = d"
  by (simp add: replay_def)

lemma replay_Cons: "replay (w # ws) d = replay ws (d(fst w := snd w))"
  by (simp add: replay_def)

lemma replay_append: "replay (xs @ ys) d = replay ys (replay xs d)"
  by (simp add: replay_def)

lemma replay_notin: "b \<notin> fst ` set ws \<Longrightarrow> replay ws d b = d b"
  by (induction ws arbitrary: d) (auto simp: replay_Nil replay_Cons)

lemma homes_apartD:
  "homes_apart l \<Longrightarrow> 0 \<le> i \<Longrightarrow> i < n (lh l) \<Longrightarrow> 0 \<le> j \<Longrightarrow> j \<le> n (lh l)
   \<Longrightarrow> block (lh l) i \<noteq> start l + j"
  by (auto simp: homes_apart_def)

lemma home_slot_neq:
  assumes "homes_apart (logger s)" "0 \<le> i" "i < n (lh (logger s))" "0 \<le> j" "j < n (lh (logger s))"
  shows "home_buf s i \<noteq> slot_buf s j"
  using homes_apartD[OF assms(1-3), of "j + 1"] assms(4,5)
  by (simp add: home_buf_def slot_buf_def add.assoc)

lemma home_hdr_neq:
  assumes "homes_apart (logger s)" "0 \<le> i" "i < n (lh (logger s))"
  shows "home_buf s i \<noteq> hdr_buf s"
  using homes_apartD[OF assms(1-3), of 0] assms(2,3)
  by (simp add: home_buf_def hdr_buf_def)

lemma slot_buf_cong: "logger s' = logger s \<Longrightarrow> slot_buf s' = slot_buf s"
  by (rule ext) (simp add: slot_buf_def)

lemma home_buf_cong: "logger s' = logger s \<Longrightarrow> home_buf s' = home_buf s"
  by (rule ext) (simp add: home_buf_def)

lemma hdr_buf_cong: "logger s' = logger s \<Longrightarrow> hdr_buf s' = hdr_buf s"
  by (simp add: hdr_buf_def)

lemma write_log_loop_views:
  assumes "0 \<le> k" "n (lh (logger s)) \<le> LOGSIZE p" "homes_apart (logger s)"
  shows "\<exists>s'. write_log_loop p k s = Inr s' \<and> logger s' = logger s \<and> refcnt s' = refcnt s
    \<and> locked s' = locked s \<and> wakeups s' = wakeups s
    \<and> writes s' = writes s @ log_writes s k
    \<and> disk s' = replay (log_writes s k) (disk s)
    \<and> bdata s' = replay (log_writes s k) (bdata s)"
  using assms
proof (induction p k s rule: write_log_loop.induct)
  case (1 p tail s)
  show ?case
  proof (cases "tail < n (lh (logger s))")
    case False
    then show ?thesis
      by (simp add: write_log_loop.simps[of p tail s] log_writes_def replay_Nil)
  next
    case True
    with 1 have ok: "idx_ok p tail" by (simp add: idx_ok_def)
    from write_log_body_views[OF ok, of s] obtain s1 where
      b: "write_log_body p tail s = Inr s1" and l1: "logger s1 = logger s"
      and r1: "refcnt s1 = refcnt s" "locked s1 = locked s" "wakeups s1 = wakeups s"
      and w1: "writes s1 = writes s @ [(slot_buf s tail, bdata s (home_buf s tail))]"
      and d1: "disk s1 = (disk s)(slot_buf s tail := bdata s (home_buf s tail))"
      and c1: "bdata s1 = (bdata s)(slot_buf s tail := bdata s (home_buf s tail))"
      by blast
    from "1.prems" have pre: "0 \<le> tail + 1" "n (lh (logger s1)) \<le> LOGSIZE p" "homes_apart (logger s1)"
      by (simp_all add: l1)
    from "1.IH"[OF True b pre] obtain s' where
      r: "write_log_loop p (tail + 1) s1 = Inr s'" and l2: "logger s' = logger s1"
      and r2: "refcnt s' = refcnt s1" "locked s' = locked s1" "wakeups s' = wakeups s1"
      and w2: "writes s' = writes s1 @ log_writes s1 (tail + 1)"
      and d2: "disk s' = replay (log_writes s1 (tail + 1)) (disk s1)"
      and c2: "bdata s' = replay (log_writes s1 (tail + 1)) (bdata s1)"
      by blast
    have same: "log_writes s1 (tail + 1) = log_writes s (tail + 1)"
      unfolding log_writes_def l1 slot_buf_cong[OF l1] home_buf_cong[OF l1]
    proof (rule map_cong[OF refl])
      fix i assume "i \<in> set [tail + 1..n (lh (logger s)) - 1]"
      then have "0 \<le> i" "i < n (lh (logger s))" using "1.prems"(1) by auto
      with home_slot_neq[OF "1.prems"(3) this _ True] "1.prems"(1)
      have "home_buf s i \<noteq> slot_buf s tail" by simp
      then show "(slot_buf s i, bdata s1 (home_buf s i)) = (slot_buf s i, bdata s (home_buf s i))"
        by (simp add: c1)
    qed
    have unf: "log_writes s tail = (slot_buf s tail, bdata s (home_buf s tail)) # log_writes s (tail + 1)"
      using True by (simp add: log_writes_def upto_rec1[of tail])
    show ?thesis
      using True b r l1 l2 r1 r2 w1 w2 d1 d2 c1 c2
      by (simp add: write_log_loop.simps[of p tail s] same unf replay_Cons)
  qed
qed

lemma hdr_fits_n: "hdr_fits p \<Longrightarrow> hdr_n_ok p"
  by (simp add: hdr_fits_def hdr_n_ok_def sizeof_logheader_def)

lemma hdr_fits_idx: "hdr_fits p \<Longrightarrow> 0 \<le> i \<Longrightarrow> i < LOGSIZE p \<Longrightarrow> hdr_idx_ok p i"
  by (simp add: hdr_fits_def hdr_idx_ok_def idx_ok_def sizeof_logheader_def)

lemma install_trans_body_views:
  assumes "idx_ok p t"
  shows "\<exists>s'. install_trans_body p r t s = Inr s' \<and> logger s' = logger s
    \<and> locked s' = locked s \<and> wakeups s' = wakeups s
    \<and> writes s' = writes s @ [(home_buf s t, bdata s (slot_buf s t))]
    \<and> disk s' = (disk s)(home_buf s t := bdata s (slot_buf s t))
    \<and> bdata s' = (bdata s)(home_buf s t := bdata s (slot_buf s t))
    \<and> refcnt s' = (if r = 0 then (refcnt s)(home_buf s t := refcnt s (home_buf s t) - 1)
                    else refcnt s)"
  using assms
  apply (simp add: install_trans_body_def Let_def bdata_simps)
  apply (auto simp: bread_def bwrite_def brelse_def bunpin_def memmove_data_def slot_buf_def
      home_buf_def bdata_def fun_eq_iff split: option.splits)
  done

lemma unpins_unfold:
  "k < n (lh (logger s)) \<Longrightarrow>
   unpins s k b = (if home_buf s k = b then 1 else 0) + unpins s (k + 1) b"
  by (simp add: unpins_def upto_rec1[of k])

lemma unpins_done: "\<not> k < n (lh (logger s)) \<Longrightarrow> unpins s k b = 0"
  by (simp add: unpins_def)

lemma unpins_cong: "logger s' = logger s \<Longrightarrow> unpins s' = unpins s"
  by (intro ext) (simp add: unpins_def home_buf_def)

lemma install_trans_loop_views:
  assumes "0 \<le> k" "n (lh (logger s)) \<le> LOGSIZE p" "homes_apart (logger s)"
  shows "\<exists>s'. install_trans_loop p r k s = Inr s' \<and> logger s' = logger s
    \<and> locked s' = locked s \<and> wakeups s' = wakeups s
    \<and> writes s' = writes s @ install_writes s k
    \<and> disk s' = replay (install_writes s k) (disk s)
    \<and> bdata s' = replay (install_writes s k) (bdata s)
    \<and> refcnt s' = (\<lambda>b. refcnt s b - (if r = 0 then unpins s k b else 0))"
  using assms
proof (induction p r k s rule: install_trans_loop.induct)
  case (1 p r tail s)
  show ?case
  proof (cases "tail < n (lh (logger s))")
    case False
    have "(\<lambda>b. refcnt s b - (if r = 0 then unpins s tail b else 0)) = refcnt s"
      by (intro ext) (simp add: unpins_done[OF False])
    with False show ?thesis
      by (simp add: install_trans_loop.simps[of p r tail s] install_writes_def replay_Nil)
  next
    case True
    with 1 have ok: "idx_ok p tail" by (simp add: idx_ok_def)
    from install_trans_body_views[OF ok, of r s] obtain s1 where
      b: "install_trans_body p r tail s = Inr s1" and l1: "logger s1 = logger s"
      and r1: "locked s1 = locked s" "wakeups s1 = wakeups s"
      and w1: "writes s1 = writes s @ [(home_buf s tail, bdata s (slot_buf s tail))]"
      and d1: "disk s1 = (disk s)(home_buf s tail := bdata s (slot_buf s tail))"
      and c1: "bdata s1 = (bdata s)(home_buf s tail := bdata s (slot_buf s tail))"
      and f1: "refcnt s1 = (if r = 0 then (refcnt s)(home_buf s tail := refcnt s (home_buf s tail) - 1)
                    else refcnt s)"
      by blast
    from "1.prems" have pre: "0 \<le> tail + 1" "n (lh (logger s1)) \<le> LOGSIZE p" "homes_apart (logger s1)"
      by (simp_all add: l1)
    from "1.IH"[OF True b pre] obtain s' where
      r: "install_trans_loop p r (tail + 1) s1 = Inr s'" and l2: "logger s' = logger s1"
      and r2: "locked s' = locked s1" "wakeups s' = wakeups s1"
      and w2: "writes s' = writes s1 @ install_writes s1 (tail + 1)"
      and d2: "disk s' = replay (install_writes s1 (tail + 1)) (disk s1)"
      and c2: "bdata s' = replay (install_writes s1 (tail + 1)) (bdata s1)"
      and f2: "refcnt s' = (\<lambda>b. refcnt s1 b - (if r = 0 then unpins s1 (tail + 1) b else 0))"
      by blast
    have same: "install_writes s1 (tail + 1) = install_writes s (tail + 1)"
      unfolding install_writes_def l1 slot_buf_cong[OF l1] home_buf_cong[OF l1]
    proof (rule map_cong[OF refl])
      fix i assume "i \<in> set [tail + 1..n (lh (logger s)) - 1]"
      then have i: "0 \<le> i" "i < n (lh (logger s))" using "1.prems"(1) by auto
      from home_slot_neq[OF "1.prems"(3) "1.prems"(1) True i]
      have "home_buf s tail \<noteq> slot_buf s i" .
      then show "(home_buf s i, bdata s1 (slot_buf s i)) = (home_buf s i, bdata s (slot_buf s i))"
        by (simp add: c1)
    qed
    have unf: "install_writes s tail
       = (home_buf s tail, bdata s (slot_buf s tail)) # install_writes s (tail + 1)"
      using True by (simp add: install_writes_def upto_rec1[of tail])
    have f: "refcnt s' = (\<lambda>b. refcnt s b - (if r = 0 then unpins s tail b else 0))"
      by (rule ext) (simp add: f2 f1 unpins_cong[OF l1] unpins_unfold[OF True])
    show ?thesis
      using True b r l1 l2 r1 r2 w1 w2 d1 d2 c1 c2 f
      by (simp add: install_trans_loop.simps[of p r tail s] same unf replay_Cons)
  qed
qed

lemma write_head_loop_views:
  assumes "0 \<le> k" "\<forall>i. k \<le> i \<and> i < n (lh (logger s)) \<longrightarrow> hdr_idx_ok p i"
  shows "\<exists>s'. write_head_loop p buf k s = Inr s' \<and> logger s' = logger s
    \<and> locked s' = locked s \<and> wakeups s' = wakeups s \<and> refcnt s' = refcnt s
    \<and> writes s' = writes s \<and> disk s' = disk s
    \<and> bdata s' = (bdata s)(buf := (\<lambda>w. if k + 1 \<le> w \<and> w \<le> n (lh (logger s))
                                       then block (lh (logger s)) (w - 1) else bdata s buf w))"
  using assms
proof (induction p buf k s rule: write_head_loop.induct)
  case (1 p buf i s)
  show ?case
  proof (cases "i < n (lh (logger s))")
    case False
    then have "(\<lambda>w. if i + 1 \<le> w \<and> w \<le> n (lh (logger s))
                 then block (lh (logger s)) (w - 1) else bdata s buf w) = bdata s buf"
      by (intro ext) simp
    with False show ?thesis
      by (simp add: write_head_loop.simps[of p buf i s])
  next
    case True
    with "1.prems" have ok: "hdr_idx_ok p i" by simp
    define s1 where "s1 = set_word buf (i + 1) (block (lh (logger s)) i) s"
    have b: "write_head_body p buf i s = Inr s1"
      using ok by (simp add: write_head_body_def s1_def)
    have l1: "logger s1 = logger s" "locked s1 = locked s" "wakeups s1 = wakeups s"
      "refcnt s1 = refcnt s" "writes s1 = writes s" "disk s1 = disk s"
      by (simp_all add: s1_def set_word_def)
    have c1: "bdata s1 = (bdata s)(buf := (bdata s buf)(i + 1 := block (lh (logger s)) i))"
      by (simp add: s1_def bdata_simps)
    from "1.prems" have pre: "0 \<le> i + 1"
      "\<forall>j. i + 1 \<le> j \<and> j < n (lh (logger s1)) \<longrightarrow> hdr_idx_ok p j"
      by (simp_all add: l1)
    from "1.IH"[OF True b pre] obtain s' where
      r: "write_head_loop p buf (i + 1) s1 = Inr s'" and l2: "logger s' = logger s1"
      "locked s' = locked s1" "wakeups s' = wakeups s1" "refcnt s' = refcnt s1"
      "writes s' = writes s1" "disk s' = disk s1"
      and c2: "bdata s' = (bdata s1)(buf := (\<lambda>w. if i + 1 + 1 \<le> w \<and> w \<le> n (lh (logger s1))
                                       then block (lh (logger s1)) (w - 1) else bdata s1 buf w))"
      by blast
    have c: "bdata s' = (bdata s)(buf := (\<lambda>w. if i + 1 \<le> w \<and> w \<le> n (lh (logger s))
                                       then block (lh (logger s)) (w - 1) else bdata s buf w))"
      using True by (auto simp: c2 c1 l1 fun_eq_iff)
    have "write_head_loop p buf i s = Inr s'"
      using True b r by (simp add: write_head_loop.simps[of p buf i s])
    with l1 l2 c show ?thesis
      by (intro exI[of _ s']) simp
  qed
qed

lemma write_head_views:
  assumes "hdr_fits p" "n (lh (logger s)) \<le> LOGSIZE p"
  shows "\<exists>s'. write_head p s = Inr s' \<and> logger s' = logger s
    \<and> locked s' = locked s \<and> wakeups s' = wakeups s \<and> refcnt s' = refcnt s
    \<and> writes s' = writes s @ [(hdr_buf s, hdr_image (lh (logger s)) (bdata s (hdr_buf s)))]
    \<and> disk s' = (disk s)(hdr_buf s := hdr_image (lh (logger s)) (bdata s (hdr_buf s)))
    \<and> bdata s' = (bdata s)(hdr_buf s := hdr_image (lh (logger s)) (bdata s (hdr_buf s)))"
proof -
  define buf where "buf = hdr_buf s"
  define s1 where "s1 = set_word buf 0 (n (lh (logger s))) (bread buf s)"
  have l1: "logger s1 = logger s" "locked s1 = locked s" "wakeups s1 = wakeups s"
    "writes s1 = writes s" "disk s1 = disk s"
    "refcnt s1 = (refcnt s)(buf := refcnt s buf + 1)"
    by (simp_all add: s1_def set_word_def bread_def)
  have c1: "bdata s1 = (bdata s)(buf := (bdata s buf)(0 := n (lh (logger s))))"
    by (simp add: s1_def bdata_simps)
  have pre: "\<forall>i. 0 \<le> i \<and> i < n (lh (logger s1)) \<longrightarrow> hdr_idx_ok p i"
    using assms by (auto simp: l1 intro: hdr_fits_idx)
  from write_head_loop_views[OF order_refl pre, of buf] obtain s2 where
    r: "write_head_loop p buf 0 s1 = Inr s2" and l2: "logger s2 = logger s1"
      "locked s2 = locked s1" "wakeups s2 = wakeups s1" "refcnt s2 = refcnt s1"
      "writes s2 = writes s1" "disk s2 = disk s1"
    and c2: "bdata s2 = (bdata s1)(buf := (\<lambda>w. if 0 + 1 \<le> w \<and> w \<le> n (lh (logger s1))
                                       then block (lh (logger s1)) (w - 1) else bdata s1 buf w))"
    by blast
  have img: "bdata s2 buf = hdr_image (lh (logger s)) (bdata s buf)"
    by (auto simp: c2 c1 l1 hdr_image_def fun_eq_iff)
  have c: "bdata s2 = (bdata s)(buf := hdr_image (lh (logger s)) (bdata s buf))"
    using img by (auto simp: c2 c1 fun_eq_iff)
  have wh: "write_head p s = Inr (brelse buf (bwrite buf s2))"
    using hdr_fits_n[OF assms(1)] r
    by (simp add: write_head_def Let_def buf_def[symmetric] s1_def bread_def)
  define s3 where "s3 = brelse buf (bwrite buf s2)"
  have c3: "bdata s3 = bdata s2"
    by (simp add: s3_def bdata_simps)
  have l3: "logger s3 = logger s2" "locked s3 = locked s2" "wakeups s3 = wakeups s2"
    "writes s3 = writes s2 @ [(buf, bdata s2 buf)]" "disk s3 = (disk s2)(buf := bdata s2 buf)"
    "refcnt s3 = (refcnt s2)(buf := refcnt s2 buf - 1)"
    by (simp_all add: s3_def bwrite_def brelse_def)
  have f3: "refcnt s3 = refcnt s"
    by (simp add: l3 l2 l1)
  show ?thesis
    unfolding wh buf_def[symmetric] s3_def[symmetric]
    by (intro exI[of _ s3]) (simp add: c3 l3(1-5) f3 l2 l1 c img)
qed

lemma read_head_loop_views:
  assumes "0 \<le> k" "\<forall>i. k \<le> i \<and> i < n (lh (logger s)) \<longrightarrow> hdr_idx_ok p i"
  shows "\<exists>s'. read_head_loop p buf k s = Inr s'
    \<and> logger s' = (logger s)\<lparr>lh := (lh (logger s))\<lparr>block :=
          (\<lambda>i. if k \<le> i \<and> i < n (lh (logger s)) then bdata s buf (i + 1)
               else block (lh (logger s)) i)\<rparr>\<rparr>
    \<and> locked s' = locked s \<and> wakeups s' = wakeups s \<and> refcnt s' = refcnt s
    \<and> writes s' = writes s \<and> disk s' = disk s \<and> bdata s' = bdata s"
  using assms
proof (induction p buf k s rule: read_head_loop.induct)
  case (1 p buf i s)
  show ?case
  proof (cases "i < n (lh (logger s))")
    case False
    then have "(\<lambda>j. if i \<le> j \<and> j < n (lh (logger s)) then bdata s buf (j + 1)
               else block (lh (logger s)) j) = block (lh (logger s))"
      by (intro ext) simp
    with False show ?thesis
      by (simp add: read_head_loop.simps[of p buf i s])
  next
    case True
    with "1.prems" have ok: "hdr_idx_ok p i" by simp
    define s1 where "s1 = set_block i (bdata s buf (i + 1)) s"
    have b: "read_head_body p buf i s = Inr s1"
      using ok by (simp add: read_head_body_def s1_def)
    have l1: "locked s1 = locked s" "wakeups s1 = wakeups s"
      "refcnt s1 = refcnt s" "writes s1 = writes s" "disk s1 = disk s"
      "n (lh (logger s1)) = n (lh (logger s))"
      by (simp_all add: s1_def set_block_def)
    have g1: "logger s1 = (logger s)\<lparr>lh := (lh (logger s))\<lparr>block :=
          (block (lh (logger s)))(i := bdata s buf (i + 1))\<rparr>\<rparr>"
      by (simp add: s1_def set_block_def)
    have c1: "bdata s1 = bdata s"
      by (simp add: s1_def set_block_def bdata_simps)
    from "1.prems" have pre: "0 \<le> i + 1"
      "\<forall>j. i + 1 \<le> j \<and> j < n (lh (logger s1)) \<longrightarrow> hdr_idx_ok p j"
      by (simp_all add: l1)
    from "1.IH"[OF True b pre] obtain s' where
      r: "read_head_loop p buf (i + 1) s1 = Inr s'"
      and g2: "logger s' = (logger s1)\<lparr>lh := (lh (logger s1))\<lparr>block :=
          (\<lambda>j. if i + 1 \<le> j \<and> j < n (lh (logger s1)) then bdata s1 buf (j + 1)
               else block (lh (logger s1)) j)\<rparr>\<rparr>"
      and l2: "locked s' = locked s1" "wakeups s' = wakeups s1" "refcnt s' = refcnt s1"
      "writes s' = writes s1" "disk s' = disk s1" "bdata s' = bdata s1"
      by blast
    have fe: "(\<lambda>j. if i + 1 \<le> j \<and> j < n (lh (logger s)) then bdata s buf (j + 1)
               else block (lh (logger s1)) j)
          = (\<lambda>j. if i \<le> j \<and> j < n (lh (logger s)) then bdata s buf (j + 1)
               else block (lh (logger s)) j)"
      using True by (intro ext) (auto simp: g1)
    have g: "logger s' = (logger s)\<lparr>lh := (lh (logger s))\<lparr>block :=
          (\<lambda>j. if i \<le> j \<and> j < n (lh (logger s)) then bdata s buf (j + 1)
               else block (lh (logger s)) j)\<rparr>\<rparr>"
      unfolding g2 l1(6) c1 fe by (simp add: g1)
    have "read_head_loop p buf i s = Inr s'"
      using True b r by (simp add: read_head_loop.simps[of p buf i s])
    with l1 l2 c1 g show ?thesis
      by (intro exI[of _ s']) simp
  qed
qed

lemma read_head_views:
  assumes "hdr_fits p" "bdata s (hdr_buf s) 0 \<le> LOGSIZE p"
  shows "\<exists>s'. read_head p s = Inr s'
    \<and> logger s' = (logger s)\<lparr>lh := hdr_read (bdata s (hdr_buf s)) (lh (logger s))\<rparr>
    \<and> locked s' = locked s \<and> wakeups s' = wakeups s \<and> refcnt s' = refcnt s
    \<and> writes s' = writes s \<and> disk s' = disk s \<and> bdata s' = bdata s"
proof -
  define buf where "buf = hdr_buf s"
  define s1 where "s1 = set_n (bdata (bread buf s) buf 0) (bread buf s)"
  have l1: "locked s1 = locked s" "wakeups s1 = wakeups s"
    "writes s1 = writes s" "disk s1 = disk s"
    "refcnt s1 = (refcnt s)(buf := refcnt s buf + 1)"
    "logger s1 = (logger s)\<lparr>lh := (lh (logger s))\<lparr>n := bdata s buf 0\<rparr>\<rparr>"
    by (simp_all add: s1_def set_n_def bdata_simps) (simp_all add: bread_def)
  have c1: "bdata s1 = bdata s"
    by (simp add: s1_def set_n_def bdata_simps)
  have pre: "\<forall>i. 0 \<le> i \<and> i < n (lh (logger s1)) \<longrightarrow> hdr_idx_ok p i"
    using assms by (auto simp: l1 buf_def intro: hdr_fits_idx)
  from read_head_loop_views[OF order_refl pre, of buf] obtain s2 where
    r: "read_head_loop p buf 0 s1 = Inr s2"
    and g2: "logger s2 = (logger s1)\<lparr>lh := (lh (logger s1))\<lparr>block :=
          (\<lambda>i. if 0 \<le> i \<and> i < n (lh (logger s1)) then bdata s1 buf (i + 1)
               else block (lh (logger s1)) i)\<rparr>\<rparr>"
    and l2: "locked s2 = locked s1" "wakeups s2 = wakeups s1" "refcnt s2 = refcnt s1"
      "writes s2 = writes s1" "disk s2 = disk s1" "bdata s2 = bdata s1"
    by blast
  have g: "logger s2 = (logger s)\<lparr>lh := hdr_read (bdata s buf) (lh (logger s))\<rparr>"
    unfolding g2 c1 unfolding l1 by (simp add: hdr_read_def cong del: if_weak_cong)
  define s3 where "s3 = brelse buf s2"
  have rh: "read_head p s = Inr s3"
    using hdr_fits_n[OF assms(1)] r
    by (simp add: read_head_def Let_def buf_def[symmetric] s1_def s3_def)
  have c3: "bdata s3 = bdata s2"
    by (simp add: s3_def bdata_simps)
  have l3: "logger s3 = logger s2" "locked s3 = locked s2" "wakeups s3 = wakeups s2"
    "writes s3 = writes s2" "disk s3 = disk s2"
    "refcnt s3 = (refcnt s2)(buf := refcnt s2 buf - 1)"
    by (simp_all add: s3_def brelse_def)
  have f3: "refcnt s3 = refcnt s"
    by (simp add: l3 l2 l1)
  show ?thesis
    unfolding rh buf_def[symmetric]
    by (intro exI[of _ s3]) (simp add: c3 l3(1-5) f3 l2 l1(1-4) c1 g)
qed

lemma install_trans_loop_returns:
  assumes "0 \<le> k" "n (lh (logger s)) \<le> LOGSIZE p"
  shows "\<exists>s'. install_trans_loop p r k s = Inr s' \<and> logger s' = logger s
    \<and> locked s' = locked s \<and> wakeups s' = wakeups s
    \<and> refcnt s' = (\<lambda>b. refcnt s b - (if r = 0 then unpins s k b else 0))
    \<and> (\<exists>ws. writes s' = writes s @ ws \<and> map fst ws = map (home_buf s) [k..n (lh (logger s)) - 1]
          \<and> disk s' = replay ws (disk s) \<and> bdata s' = replay ws (bdata s))"
  using assms
proof (induction p r k s rule: install_trans_loop.induct)
  case (1 p r tail s)
  show ?case
  proof (cases "tail < n (lh (logger s))")
    case False
    have "(\<lambda>b. refcnt s b - (if r = 0 then unpins s tail b else 0)) = refcnt s"
      by (intro ext) (simp add: unpins_done[OF False])
    with False show ?thesis
      by (simp add: install_trans_loop.simps[of p r tail s] replay_Nil)
  next
    case True
    with 1 have ok: "idx_ok p tail" by (simp add: idx_ok_def)
    from install_trans_body_views[OF ok, of r s] obtain s1 where
      b: "install_trans_body p r tail s = Inr s1" and l1: "logger s1 = logger s"
      and r1: "locked s1 = locked s" "wakeups s1 = wakeups s"
      and w1: "writes s1 = writes s @ [(home_buf s tail, bdata s (slot_buf s tail))]"
      and d1: "disk s1 = (disk s)(home_buf s tail := bdata s (slot_buf s tail))"
      and c1: "bdata s1 = (bdata s)(home_buf s tail := bdata s (slot_buf s tail))"
      and f1: "refcnt s1 = (if r = 0 then (refcnt s)(home_buf s tail := refcnt s (home_buf s tail) - 1)
                    else refcnt s)"
      by blast
    from "1.prems" have pre: "0 \<le> tail + 1" "n (lh (logger s1)) \<le> LOGSIZE p"
      by (simp_all add: l1)
    from "1.IH"[OF True b pre] obtain s' ws where
      r: "install_trans_loop p r (tail + 1) s1 = Inr s'" and l2: "logger s' = logger s1"
      and r2: "locked s' = locked s1" "wakeups s' = wakeups s1"
      and f2: "refcnt s' = (\<lambda>b. refcnt s1 b - (if r = 0 then unpins s1 (tail + 1) b else 0))"
      and w2: "writes s' = writes s1 @ ws"
      and k2: "map fst ws = map (home_buf s1) [tail + 1..n (lh (logger s1)) - 1]"
      and d2: "disk s' = replay ws (disk s1)"
      and c2: "bdata s' = replay ws (bdata s1)"
      by blast
    define ws' where "ws' = (home_buf s tail, bdata s (slot_buf s tail)) # ws"
    have f: "refcnt s' = (\<lambda>b. refcnt s b - (if r = 0 then unpins s tail b else 0))"
      by (rule ext) (simp add: f2 f1 unpins_cong[OF l1] unpins_unfold[OF True])
    have k: "map fst ws' = map (home_buf s) [tail..n (lh (logger s)) - 1]"
      using True by (simp add: ws'_def k2 l1 home_buf_cong[OF l1] upto_rec1[of tail])
    have "install_trans_loop p r tail s = Inr s'"
      using True b r by (simp add: install_trans_loop.simps[of p r tail s])
    moreover have "writes s' = writes s @ ws'" "disk s' = replay ws' (disk s)"
      "bdata s' = replay ws' (bdata s)"
      by (simp_all add: ws'_def w2 w1 d2 d1 c2 c1 replay_Cons)
    ultimately show ?thesis
      using l1 l2 r1 r2 f k by (intro exI[of _ s']) auto
  qed
qed

lemma hdr_image_zero: "n h = 0 \<Longrightarrow> hdr_image h old = old(0 := 0)"
  by (intro ext) (simp add: hdr_image_def)

lemma recover_from_log_returns:
  assumes "hdr_fits p" "bdata s (hdr_buf s) 0 \<le> LOGSIZE p"
  shows "\<exists>s'. recover_from_log p s = Inr s'
    \<and> logger s' = (logger s)\<lparr>lh := (hdr_read (bdata s (hdr_buf s)) (lh (logger s)))\<lparr>n := 0\<rparr>\<rparr>
    \<and> locked s' = locked s \<and> wakeups s' = wakeups s \<and> refcnt s' = refcnt s
    \<and> bdata s' (hdr_buf s) 0 = 0 \<and> disk s' (hdr_buf s) = bdata s' (hdr_buf s)"
proof -
  from read_head_views[OF assms] obtain s1 where
    r1: "read_head p s = Inr s1"
    and g1: "logger s1 = (logger s)\<lparr>lh := hdr_read (bdata s (hdr_buf s)) (lh (logger s))\<rparr>"
    and l1: "locked s1 = locked s" "wakeups s1 = wakeups s" "refcnt s1 = refcnt s"
    by blast
  have n1: "n (lh (logger s1)) \<le> LOGSIZE p"
    using assms(2) by (simp add: g1 hdr_read_def)
  from install_trans_loop_returns[OF order_refl n1, of 1] obtain s2 where
    r2: "install_trans p 1 s1 = Inr s2" and g2: "logger s2 = logger s1"
    and l2: "locked s2 = locked s1" "wakeups s2 = wakeups s1" "refcnt s2 = refcnt s1"
    unfolding install_trans_def by auto
  define s3 where "s3 = set_n 0 s2"
  have g3: "logger s3 = (logger s)\<lparr>lh := (hdr_read (bdata s (hdr_buf s)) (lh (logger s)))\<lparr>n := 0\<rparr>\<rparr>"
    and l3: "locked s3 = locked s" "wakeups s3 = wakeups s" "refcnt s3 = refcnt s"
    by (simp_all add: s3_def set_n_def g2 g1 l2 l1)
  have h3: "hdr_buf s3 = hdr_buf s"
    by (simp add: hdr_buf_def g3)
  have n3: "n (lh (logger s3)) \<le> LOGSIZE p"
    using assms(1) by (simp add: g3 hdr_fits_def)
  from write_head_views[OF assms(1) n3] obtain s4 where
    r4: "write_head p s3 = Inr s4" and g4: "logger s4 = logger s3"
    and l4: "locked s4 = locked s3" "wakeups s4 = wakeups s3" "refcnt s4 = refcnt s3"
    and d4: "disk s4 = (disk s3)(hdr_buf s3 := hdr_image (lh (logger s3)) (bdata s3 (hdr_buf s3)))"
    and c4: "bdata s4 = (bdata s3)(hdr_buf s3 := hdr_image (lh (logger s3)) (bdata s3 (hdr_buf s3)))"
    by blast
  have "recover_from_log p s = Inr s4"
    by (simp add: recover_from_log_def r1 r2 r4 s3_def[symmetric])
  moreover have "bdata s4 (hdr_buf s) 0 = 0" "disk s4 (hdr_buf s) = bdata s4 (hdr_buf s)"
    by (simp_all add: c4 d4 h3 hdr_image_def g3)
  ultimately show ?thesis
    using g4 g3 l4 l3 by (intro exI[of _ s4]) simp
qed

lemma write_log_body_frame:
  "write_log_body p t s = Inr s' \<Longrightarrow> logger s' = logger s"
  by (auto simp: write_log_body_def Let_def bread_def bwrite_def brelse_def memmove_data_def split: if_splits)

lemma write_log_body_error:
  "write_log_body p t s = Inl e \<Longrightarrow> e = OutOfBounds"
  by (auto simp: write_log_body_def Let_def split: if_splits)

lemma write_log_loop_frame:
  "write_log_loop p k s = Inr s' \<Longrightarrow> logger s' = logger s"
proof (induction p k s rule: write_log_loop.induct)
  case (1 p t s)
  show ?case
  proof (cases "t < n (lh (logger s))")
    case True
    with "1.prems" obtain s1 where b: "write_log_body p t s = Inr s1"
      and r: "write_log_loop p (t + 1) s1 = Inr s'"
      by (auto simp: write_log_loop.simps[of p t s] split: sum.splits)
    from "1.IH"[OF True b r] write_log_body_frame[OF b] show ?thesis by simp
  next
    case False
    with "1.prems" show ?thesis by (simp add: write_log_loop.simps[of p t s])
  qed
qed

lemma write_log_loop_error:
  "write_log_loop p k s = Inl e \<Longrightarrow> e = OutOfBounds"
proof (induction p k s rule: write_log_loop.induct)
  case (1 p t s)
  show ?case
  proof (cases "t < n (lh (logger s))")
    case True
    show ?thesis
    proof (cases "write_log_body p t s")
      case (Inl e')
      with True "1.prems" write_log_body_error[OF Inl] show ?thesis
        by (simp add: write_log_loop.simps[of p t s])
    next
      case (Inr s1)
      with True "1.prems" have "write_log_loop p (t + 1) s1 = Inl e"
        by (simp add: write_log_loop.simps[of p t s])
      from "1.IH"[OF True Inr this] show ?thesis .
    qed
  next
    case False
    with "1.prems" show ?thesis by (simp add: write_log_loop.simps[of p t s])
  qed
qed

lemma install_trans_body_frame:
  "install_trans_body p r t s = Inr s' \<Longrightarrow> logger s' = logger s"
  by (auto simp: install_trans_body_def Let_def bread_def bwrite_def brelse_def bunpin_def memmove_data_def split: if_splits)

lemma install_trans_body_error:
  "install_trans_body p r t s = Inl e \<Longrightarrow> e = OutOfBounds"
  by (auto simp: install_trans_body_def Let_def split: if_splits)

lemma install_trans_loop_frame:
  "install_trans_loop p r k s = Inr s' \<Longrightarrow> logger s' = logger s"
proof (induction p r k s rule: install_trans_loop.induct)
  case (1 p r t s)
  show ?case
  proof (cases "t < n (lh (logger s))")
    case True
    with "1.prems" obtain s1 where b: "install_trans_body p r t s = Inr s1"
      and r: "install_trans_loop p r (t + 1) s1 = Inr s'"
      by (auto simp: install_trans_loop.simps[of p r t s] split: sum.splits)
    from "1.IH"[OF True b r] install_trans_body_frame[OF b] show ?thesis by simp
  next
    case False
    with "1.prems" show ?thesis by (simp add: install_trans_loop.simps[of p r t s])
  qed
qed

lemma install_trans_loop_error:
  "install_trans_loop p r k s = Inl e \<Longrightarrow> e = OutOfBounds"
proof (induction p r k s rule: install_trans_loop.induct)
  case (1 p r t s)
  show ?case
  proof (cases "t < n (lh (logger s))")
    case True
    show ?thesis
    proof (cases "install_trans_body p r t s")
      case (Inl e')
      with True "1.prems" install_trans_body_error[OF Inl] show ?thesis
        by (simp add: install_trans_loop.simps[of p r t s])
    next
      case (Inr s1)
      with True "1.prems" have "install_trans_loop p r (t + 1) s1 = Inl e"
        by (simp add: install_trans_loop.simps[of p r t s])
      from "1.IH"[OF True Inr this] show ?thesis .
    qed
  next
    case False
    with "1.prems" show ?thesis by (simp add: install_trans_loop.simps[of p r t s])
  qed
qed

lemma write_head_body_frame:
  "write_head_body p buf t s = Inr s' \<Longrightarrow> logger s' = logger s"
  by (auto simp: write_head_body_def Let_def set_word_def split: if_splits)

lemma write_head_body_error:
  "write_head_body p buf t s = Inl e \<Longrightarrow> e = OutOfBounds"
  by (auto simp: write_head_body_def Let_def split: if_splits)

lemma write_head_loop_frame:
  "write_head_loop p buf k s = Inr s' \<Longrightarrow> logger s' = logger s"
proof (induction p buf k s rule: write_head_loop.induct)
  case (1 p buf t s)
  show ?case
  proof (cases "t < n (lh (logger s))")
    case True
    with "1.prems" obtain s1 where b: "write_head_body p buf t s = Inr s1"
      and r: "write_head_loop p buf (t + 1) s1 = Inr s'"
      by (auto simp: write_head_loop.simps[of p buf t s] split: sum.splits)
    from "1.IH"[OF True b r] write_head_body_frame[OF b] show ?thesis by simp
  next
    case False
    with "1.prems" show ?thesis by (simp add: write_head_loop.simps[of p buf t s])
  qed
qed

lemma write_head_loop_error:
  "write_head_loop p buf k s = Inl e \<Longrightarrow> e = OutOfBounds"
proof (induction p buf k s rule: write_head_loop.induct)
  case (1 p buf t s)
  show ?case
  proof (cases "t < n (lh (logger s))")
    case True
    show ?thesis
    proof (cases "write_head_body p buf t s")
      case (Inl e')
      with True "1.prems" write_head_body_error[OF Inl] show ?thesis
        by (simp add: write_head_loop.simps[of p buf t s])
    next
      case (Inr s1)
      with True "1.prems" have "write_head_loop p buf (t + 1) s1 = Inl e"
        by (simp add: write_head_loop.simps[of p buf t s])
      from "1.IH"[OF True Inr this] show ?thesis .
    qed
  next
    case False
    with "1.prems" show ?thesis by (simp add: write_head_loop.simps[of p buf t s])
  qed
qed

lemma read_head_body_frame:
  "read_head_body p buf t s = Inr s' \<Longrightarrow> start (logger s') = start (logger s) \<and> size_log (logger s') = size_log (logger s)
    \<and> outstanding (logger s') = outstanding (logger s) \<and> committing (logger s') = committing (logger s)
    \<and> dev (logger s') = dev (logger s) \<and> n (lh (logger s')) = n (lh (logger s))"
  by (auto simp: read_head_body_def Let_def set_block_def split: if_splits)

lemma read_head_body_error:
  "read_head_body p buf t s = Inl e \<Longrightarrow> e = OutOfBounds"
  by (auto simp: read_head_body_def Let_def split: if_splits)

lemma read_head_loop_frame:
  "read_head_loop p buf k s = Inr s' \<Longrightarrow> start (logger s') = start (logger s) \<and> size_log (logger s') = size_log (logger s)
    \<and> outstanding (logger s') = outstanding (logger s) \<and> committing (logger s') = committing (logger s)
    \<and> dev (logger s') = dev (logger s) \<and> n (lh (logger s')) = n (lh (logger s))"
proof (induction p buf k s rule: read_head_loop.induct)
  case (1 p buf t s)
  show ?case
  proof (cases "t < n (lh (logger s))")
    case True
    with "1.prems" obtain s1 where b: "read_head_body p buf t s = Inr s1"
      and r: "read_head_loop p buf (t + 1) s1 = Inr s'"
      by (auto simp: read_head_loop.simps[of p buf t s] split: sum.splits)
    from "1.IH"[OF True b r] read_head_body_frame[OF b] show ?thesis by simp
  next
    case False
    with "1.prems" show ?thesis by (simp add: read_head_loop.simps[of p buf t s])
  qed
qed

lemma read_head_loop_error:
  "read_head_loop p buf k s = Inl e \<Longrightarrow> e = OutOfBounds"
proof (induction p buf k s rule: read_head_loop.induct)
  case (1 p buf t s)
  show ?case
  proof (cases "t < n (lh (logger s))")
    case True
    show ?thesis
    proof (cases "read_head_body p buf t s")
      case (Inl e')
      with True "1.prems" read_head_body_error[OF Inl] show ?thesis
        by (simp add: read_head_loop.simps[of p buf t s])
    next
      case (Inr s1)
      with True "1.prems" have "read_head_loop p buf (t + 1) s1 = Inl e"
        by (simp add: read_head_loop.simps[of p buf t s])
      from "1.IH"[OF True Inr this] show ?thesis .
    qed
  next
    case False
    with "1.prems" show ?thesis by (simp add: read_head_loop.simps[of p buf t s])
  qed
qed

subsection \<open>The concrete states\<close>

lemma hdr_fits_xv6: "hdr_fits xv6_params"
  by (simp add: hdr_fits_def xv6_params_def sizeof_logheader_def)

lemma homes_apart_ex_tx: "homes_apart (logger ex_tx)"
  by (auto simp: homes_apart_def ex_tx_def ex_log_def split: if_splits)

lemma ex_tx_views:
  "n (lh (logger ex_tx)) = 2" "hdr_buf ex_tx = (1, 2)"
  "slot_buf ex_tx 0 = (1, 3)" "slot_buf ex_tx 1 = (1, 4)"
  "home_buf ex_tx 0 = (1, 40)" "home_buf ex_tx 1 = (1, 41)"
  "bdata ex_tx (1, 40) = (\<lambda>_. 7)" "bdata ex_tx (1, 41) = (\<lambda>_. 9)"
  "bdata ex_tx (1, 2) = (\<lambda>_. 0)"
  by (simp_all add: ex_tx_def ex_log_def ex_sys_def boot_def hdr_buf_def slot_buf_def home_buf_def
      bdata_def)

lemma ex_crashed_views:
  "hdr_buf ex_crashed = (1, 2)" "bdata ex_crashed (1, 2) 0 = 2"
  "slot_buf ex_crashed 0 = (1, 3)" "slot_buf ex_crashed 1 = (1, 4)"
  "home_buf (after_read ex_crashed) 0 = (1, 40)" "home_buf (after_read ex_crashed) 1 = (1, 41)"
  "bdata ex_crashed (1, 3) = (\<lambda>_. 7)" "bdata ex_crashed (1, 4) = (\<lambda>_. 9)"
  "writes ex_crashed = []"
  by (simp_all add: ex_crashed_def ex_log_def boot_def hdr_buf_def slot_buf_def home_buf_def
      bdata_def after_read_def hdr_read_def)

lemma homes_apart_ex_crashed: "homes_apart (logger (after_read ex_crashed))"
  by (auto simp: homes_apart_def after_read_def hdr_read_def ex_crashed_def ex_log_def boot_def
      hdr_buf_def bdata_def split: if_splits)

subsection \<open>Initialisation\<close>

lemma read_head_error: "read_head p s = Inl e \<Longrightarrow> e = OutOfBounds"
  by (auto simp: read_head_def Let_def split: if_splits sum.splits dest: read_head_loop_error)

lemma write_head_error: "write_head p s = Inl e \<Longrightarrow> e = OutOfBounds"
  by (auto simp: write_head_def Let_def split: if_splits sum.splits dest: write_head_loop_error)

lemma recover_from_log_error: "recover_from_log p s = Inl e \<Longrightarrow> e = OutOfBounds"
  by (auto simp: recover_from_log_def install_trans_def split: sum.splits
      dest: read_head_error write_head_error install_trans_loop_error)

lemma commit_error: "commit p s = Inl e \<Longrightarrow> e = OutOfBounds"
  by (auto simp: commit_def install_trans_def write_log_def split: sum.splits if_splits
      dest: write_log_loop_error write_head_error install_trans_loop_error)

lemma hdr_fits_initlog: "sizeof_logheader p < BSIZE p \<Longrightarrow> 0 \<le> LOGSIZE p \<Longrightarrow> hdr_fits p"
  by (simp add: hdr_fits_def)

text \<open>
  Claim C9, as amended. \<^verbatim>\<open>initlog\<close> panics exactly when the size of the header record is
  at least \<open>BSIZE\<close>: a header of exactly \<open>BSIZE\<close> bytes fits in a block and is refused all
  the same. When the header is smaller than a block, \<open>LOGSIZE\<close> is not negative and the count in
  the header block is at most \<open>LOGSIZE\<close>, \<^verbatim>\<open>initlog\<close> returns, with the geometry of
  the superblock in place and an empty in-memory header.
\<close>

theorem initlog_fit_check:
  "((\<exists>msg. initlog p dv sb s = Inl (Panic msg)) \<longleftrightarrow> BSIZE p \<le> sizeof_logheader p)
   \<and> (sizeof_logheader p < BSIZE p \<and> 0 \<le> LOGSIZE p \<and> bdata s (dv, logstart sb) 0 \<le> LOGSIZE p
        \<longrightarrow> (\<exists>s'. initlog p dv sb s = Inr s' \<and> start (logger s') = logstart sb
              \<and> size_log (logger s') = nlog sb \<and> dev (logger s') = dv
              \<and> n (lh (logger s')) = 0))"
proof (intro conjI impI)
  show "(\<exists>msg. initlog p dv sb s = Inl (Panic msg)) \<longleftrightarrow> BSIZE p \<le> sizeof_logheader p"
    by (auto simp: initlog_def Let_def dest: recover_from_log_error)
next
  assume a: "sizeof_logheader p < BSIZE p \<and> 0 \<le> LOGSIZE p \<and> bdata s (dv, logstart sb) 0 \<le> LOGSIZE p"
  define s2 where
    "s2 = (initlock s)\<lparr>logger := (logger (initlock s))\<lparr>start := logstart sb, size_log := nlog sb, dev := dv\<rparr>\<rparr>"
  have h: "hdr_buf s2 = (dv, logstart sb)"
    by (simp add: s2_def hdr_buf_def)
  have c: "bdata s2 = bdata s"
    by (simp add: s2_def initlock_def bdata_simps)
  from a have "hdr_fits p" "bdata s2 (hdr_buf s2) 0 \<le> LOGSIZE p"
    by (simp_all add: hdr_fits_initlog h c)
  from recover_from_log_returns[OF this] obtain s' where
    "recover_from_log p s2 = Inr s'"
    "logger s' = (logger s2)\<lparr>lh := (hdr_read (bdata s2 (hdr_buf s2)) (lh (logger s2)))\<lparr>n := 0\<rparr>\<rparr>"
    by blast
  with a show "\<exists>s'. initlog p dv sb s = Inr s' \<and> start (logger s') = logstart sb
              \<and> size_log (logger s') = nlog sb \<and> dev (logger s') = dv
              \<and> n (lh (logger s')) = 0"
    by (simp add: initlog_def Let_def s2_def[symmetric]) (simp add: s2_def)
qed

theorem initlog_fit_check_witness:
  "sizeof_logheader \<lparr>LOGSIZE = 30, MAXOPBLOCKS = 10, BSIZE = 1024\<rparr>
      < BSIZE \<lparr>LOGSIZE = 30, MAXOPBLOCKS = 10, BSIZE = 1024\<rparr>
   \<and> 0 \<le> LOGSIZE \<lparr>LOGSIZE = 30, MAXOPBLOCKS = 10, BSIZE = 1024\<rparr>
   \<and> bdata (boot (\<lambda>b w. 0)) (1, logstart \<lparr>logstart = 2, nlog = 31\<rparr>) 0
      \<le> LOGSIZE \<lparr>LOGSIZE = 30, MAXOPBLOCKS = 10, BSIZE = 1024\<rparr>
   \<and> (\<exists>s'. initlog \<lparr>LOGSIZE = 30, MAXOPBLOCKS = 10, BSIZE = 1024\<rparr> 1 \<lparr>logstart = 2, nlog = 31\<rparr>
              (boot (\<lambda>b w. 0)) = Inr s'
         \<and> start (logger s') = 2 \<and> size_log (logger s') = 31 \<and> dev (logger s') = 1
         \<and> n (lh (logger s')) = 0)"
  using initlog_fit_check[of "\<lparr>LOGSIZE = 30, MAXOPBLOCKS = 10, BSIZE = 1024\<rparr>" 1
      "\<lparr>logstart = 2, nlog = 31\<rparr>" "boot (\<lambda>b w. 0)"]
  by (simp add: sizeof_logheader_def bdata_boot)

text \<open>
  Claim C9 as stated fails: with \<open>LOGSIZE = 255\<close> and \<open>BSIZE = 1024\<close> the header record has
  exactly \<open>BSIZE\<close> bytes, so it fits within one block, and \<^verbatim>\<open>initlog\<close> panics.
\<close>

theorem initlog_fit_counterexample:
  "sizeof_logheader \<lparr>LOGSIZE = 255, MAXOPBLOCKS = 10, BSIZE = 1024\<rparr>
      \<le> BSIZE \<lparr>LOGSIZE = 255, MAXOPBLOCKS = 10, BSIZE = 1024\<rparr>
   \<and> initlog \<lparr>LOGSIZE = 255, MAXOPBLOCKS = 10, BSIZE = 1024\<rparr> 1 \<lparr>logstart = 2, nlog = 256\<rparr>
        (boot (\<lambda>b w. 0)) = Inl (Panic ''initlog: too big logheader'')"
  by (simp add: sizeof_logheader_def initlog_def)

subsection \<open>\<^verbatim>\<open>log_write\<close>: the checks at entry\<close>

lemma log_write_scan_error: "log_write_scan p bno k s = Inl e \<Longrightarrow> e = OutOfBounds"
proof (induction p bno k s rule: log_write_scan.induct)
  case (1 p bno i s)
  then show ?case
    by (simp add: log_write_scan.simps[of p bno i s] split: if_splits)
qed

lemma log_write_scan_spec:
  assumes "0 \<le> k" "n (lh (logger s)) \<le> LOGSIZE p"
  shows "\<exists>i. log_write_scan p bno k s = Inr i \<and> k \<le> i
    \<and> (\<forall>j. k \<le> j \<and> j < i \<and> j < n (lh (logger s)) \<longrightarrow> block (lh (logger s)) j \<noteq> bno)
    \<and> (i < n (lh (logger s)) \<longrightarrow> block (lh (logger s)) i = bno)
    \<and> (\<not> i < n (lh (logger s)) \<longrightarrow> i = max k (n (lh (logger s))))"
  using assms
proof (induction p bno k s rule: log_write_scan.induct)
  case (1 p bno i s)
  show ?case
  proof (cases "i < n (lh (logger s))")
    case False
    then show ?thesis
      by (simp add: log_write_scan.simps[of p bno i s])
  next
    case True
    with "1.prems" have ok: "idx_ok p i" by (simp add: idx_ok_def)
    show ?thesis
    proof (cases "block (lh (logger s)) i = bno")
      case hit: True
      with True ok show ?thesis
        by (simp add: log_write_scan.simps[of p bno i s])
    next
      case miss: False
      from "1.prems" have pre: "0 \<le> i + 1" "n (lh (logger s)) \<le> LOGSIZE p" by simp_all
      from "1.IH"[OF True _ miss pre] ok obtain r where
        r: "log_write_scan p bno (i + 1) s = Inr r" "i + 1 \<le> r"
        and nf: "\<forall>j. i + 1 \<le> j \<and> j < r \<and> j < n (lh (logger s)) \<longrightarrow> block (lh (logger s)) j \<noteq> bno"
        and fin: "r < n (lh (logger s)) \<longrightarrow> block (lh (logger s)) r = bno"
          "\<not> r < n (lh (logger s)) \<longrightarrow> r = max (i + 1) (n (lh (logger s)))"
        by auto
      have nf': "\<forall>j. i \<le> j \<and> j < r \<and> j < n (lh (logger s)) \<longrightarrow> block (lh (logger s)) j \<noteq> bno"
      proof (intro allI impI)
        fix j assume j: "i \<le> j \<and> j < r \<and> j < n (lh (logger s))"
        show "block (lh (logger s)) j \<noteq> bno"
        proof (cases "j = i")
          case True with miss show ?thesis by simp
        next
          case False with j nf show ?thesis by simp
        qed
      qed
      have "log_write_scan p bno i s = Inr r"
        using True ok miss r by (simp add: log_write_scan.simps[of p bno i s])
      with r nf' fin True show ?thesis
        by (intro exI[of _ r]) (auto simp: max_def split: if_splits)
    qed
  qed
qed

lemma log_write_panics_iff:
  "(\<exists>msg. log_write p b s = Inl (Panic msg)) \<longleftrightarrow>
     (LOGSIZE p \<le> n (lh (logger s)) \<or> size_log (logger s) - 1 \<le> n (lh (logger s))
      \<or> outstanding (logger s) < 1)"
  by (auto simp: log_write_def Let_def acquire_def split: sum.splits if_splits
      dest: log_write_scan_error)

lemma log_write_hit:
  assumes "n (lh (logger s)) < LOGSIZE p" "n (lh (logger s)) < size_log (logger s) - 1"
    "1 \<le> outstanding (logger s)" "in_header (logger s) (blockno b)"
  shows "log_write p b s = Inr (release s)"
proof -
  from assms(4) obtain i0 where i0: "0 \<le> i0" "i0 < n (lh (logger s))"
    "block (lh (logger s)) i0 = blockno b"
    by (auto simp: in_header_def)
  have la: "logger (acquire s) = logger s" by (simp add: acquire_def)
  from log_write_scan_spec[of 0 "acquire s" p "blockno b", unfolded la] assms(1) obtain i where
    sc: "log_write_scan p (blockno b) 0 (acquire s) = Inr i" "0 \<le> i"
    and nf: "\<forall>j. 0 \<le> j \<and> j < i \<and> j < n (lh (logger s)) \<longrightarrow> block (lh (logger s)) j \<noteq> blockno b"
    and fin: "i < n (lh (logger s)) \<longrightarrow> block (lh (logger s)) i = blockno b"
      "\<not> i < n (lh (logger s)) \<longrightarrow> i = max 0 (n (lh (logger s)))"
    by auto
  have lt: "i < n (lh (logger s))"
  proof (rule ccontr)
    assume "\<not> i < n (lh (logger s))"
    with fin i0 have "i = n (lh (logger s))" by (simp add: max_def)
    with nf i0 show False by auto
  qed
  with fin have bi: "block (lh (logger s)) i = blockno b" by simp
  have ok: "idx_ok p i" using lt sc(2) assms(1) by (simp add: idx_ok_def)
  have same: "set_block i (blockno b) (acquire s) = acquire s"
    using bi by (simp add: set_block_def acquire_def fun_upd_idem)
  have "release (acquire s) = release s"
    by (simp add: release_def acquire_def)
  with assms(1-3) sc ok lt same show ?thesis
    by (simp add: log_write_def Let_def la)
qed

lemma log_write_miss:
  assumes "0 \<le> n (lh (logger s))"
    "n (lh (logger s)) < LOGSIZE p" "n (lh (logger s)) < size_log (logger s) - 1"
    "1 \<le> outstanding (logger s)" "\<not> in_header (logger s) (blockno b)"
  shows "log_write p b s =
     Inr (release (set_n (n (lh (logger s)) + 1)
        (bpin b (set_block (n (lh (logger s))) (blockno b) s))))"
proof -
  have la: "logger (acquire s) = logger s" by (simp add: acquire_def)
  from log_write_scan_spec[of 0 "acquire s" p "blockno b", unfolded la] assms(2) obtain i where
    sc: "log_write_scan p (blockno b) 0 (acquire s) = Inr i" "0 \<le> i"
    and fin: "i < n (lh (logger s)) \<longrightarrow> block (lh (logger s)) i = blockno b"
      "\<not> i < n (lh (logger s)) \<longrightarrow> i = max 0 (n (lh (logger s)))"
    by auto
  have "\<not> i < n (lh (logger s))"
    using assms(5) sc(2) fin by (auto simp: in_header_def split: if_splits)
  with fin assms(1) have ieq: "i = n (lh (logger s))" by (simp add: max_def)
  have ok: "idx_ok p i" using ieq assms(1,2) by (simp add: idx_ok_def)
  have n2: "n (lh (logger (set_block i (blockno b) (acquire s)))) = n (lh (logger s))"
    by (simp add: set_block_def acquire_def)
  have "release (set_n (n (lh (logger s)) + 1) (bpin b (set_block i (blockno b) (acquire s))))
      = release (set_n (n (lh (logger s)) + 1) (bpin b (set_block i (blockno b) s)))"
    by (simp add: release_def set_n_def bpin_def set_block_def acquire_def)
  with assms(2-4) sc ok ieq n2 show ?thesis
    by (simp add: log_write_def Let_def la)
qed

text \<open>
  Claim C7. \<^verbatim>\<open>log_write\<close> panics if and only if, at entry, \<open>n \<ge> LOGSIZE\<close> or
  \<open>n \<ge> size - 1\<close> or \<open>outstanding < 1\<close>. When none of the three holds (and the count is
  not negative) it returns, and the block number is an entry of the header.
\<close>

theorem log_write_preconditions:
  "((\<exists>msg. log_write p b s = Inl (Panic msg)) \<longleftrightarrow>
      (LOGSIZE p \<le> n (lh (logger s)) \<or> size_log (logger s) - 1 \<le> n (lh (logger s))
       \<or> outstanding (logger s) < 1))
   \<and> (0 \<le> n (lh (logger s)) \<and> n (lh (logger s)) < LOGSIZE p
        \<and> n (lh (logger s)) < size_log (logger s) - 1 \<and> 1 \<le> outstanding (logger s)
      \<longrightarrow> (\<exists>s'. log_write p b s = Inr s' \<and> in_header (logger s') (blockno b)))"
proof (intro conjI impI)
  show "(\<exists>msg. log_write p b s = Inl (Panic msg)) \<longleftrightarrow>
      (LOGSIZE p \<le> n (lh (logger s)) \<or> size_log (logger s) - 1 \<le> n (lh (logger s))
       \<or> outstanding (logger s) < 1)"
    by (rule log_write_panics_iff)
next
  assume a: "0 \<le> n (lh (logger s)) \<and> n (lh (logger s)) < LOGSIZE p
        \<and> n (lh (logger s)) < size_log (logger s) - 1 \<and> 1 \<le> outstanding (logger s)"
  show "\<exists>s'. log_write p b s = Inr s' \<and> in_header (logger s') (blockno b)"
  proof (cases "in_header (logger s) (blockno b)")
    case True
    with a log_write_hit[of s p b] show ?thesis
      by (simp add: release_def)
  next
    case False
    with a log_write_miss[of s p b] show ?thesis
      by (auto simp: release_def set_n_def bpin_def set_block_def in_header_def
          intro!: bexI[of _ "n (lh (logger s))"])
  qed
qed

theorem log_write_preconditions_witness:
  "0 \<le> n (lh (logger ex_sys)) \<and> n (lh (logger ex_sys)) < LOGSIZE xv6_params
   \<and> n (lh (logger ex_sys)) < size_log (logger ex_sys) - 1 \<and> 1 \<le> outstanding (logger ex_sys)
   \<and> (\<exists>s'. log_write xv6_params (1, 40) ex_sys = Inr s' \<and> in_header (logger s') (blockno (1, 40)))"
  using log_write_preconditions[of xv6_params "(1, 40)" ex_sys]
  by (simp add: ex_sys_def ex_log_def xv6_params_def boot_def)

subsection \<open>\<^verbatim>\<open>begin_op\<close>\<close>

lemma begin_op_test_Some:
  "begin_op_test p s = Some s' \<longleftrightarrow>
     committing (logger s) = 0
     \<and> n (lh (logger s)) + (outstanding (logger s) + 1) * MAXOPBLOCKS p \<le> LOGSIZE p
     \<and> s' = release (set_outstanding (outstanding (logger s) + 1) s)"
  by (auto simp: begin_op_test_def)

lemma begin_op_test_None:
  "begin_op_test p s = None \<longleftrightarrow>
     committing (logger s) \<noteq> 0
     \<or> LOGSIZE p < n (lh (logger s)) + (outstanding (logger s) + 1) * MAXOPBLOCKS p"
  by (auto simp: begin_op_test_def)

lemma begin_op_loop_admits:
  "begin_op_loop p s later = Some s' \<Longrightarrow>
   \<exists>t\<in>set (s # map acquire later). begin_op_test p t = Some s'"
proof (induction later arbitrary: s)
  case Nil
  then show ?case by (auto split: option.splits)
next
  case (Cons t later)
  show ?case
  proof (cases "begin_op_test p s")
    case None
    with Cons.prems have "begin_op_loop p (acquire t) later = Some s'" by simp
    from Cons.IH[OF this] show ?thesis by auto
  next
    case (Some a)
    with Cons.prems show ?thesis by simp
  qed
qed

text \<open>
  Claim C5. When \<^verbatim>\<open>begin_op\<close> returns, it does so from a state (the one it was called in,
  or one it woke up in) where \<open>committing\<close> is false and
  \<open>n + (outstanding + 1) * MAXOPBLOCKS \<le> LOGSIZE\<close>, and it has added one to \<open>outstanding\<close> of
  that state. When a commit is in progress or the reservation does not fit, the caller
  sleeps: it is not admitted, and tests again in the state it wakes up in. When neither
  holds it is admitted at once.
\<close>

theorem begin_op_admission:
  "(begin_op p s later = Some s' \<longrightarrow>
      (\<exists>t\<in>set (s # later). committing (logger t) = 0
         \<and> n (lh (logger t)) + (outstanding (logger t) + 1) * MAXOPBLOCKS p \<le> LOGSIZE p
         \<and> s' = t\<lparr>logger := (logger t)\<lparr>outstanding := outstanding (logger t) + 1\<rparr>,
                   locked := False\<rparr>))
   \<and> (committing (logger s) \<noteq> 0
        \<or> LOGSIZE p < n (lh (logger s)) + (outstanding (logger s) + 1) * MAXOPBLOCKS p
      \<longrightarrow> begin_op p s [] = None
          \<and> (\<forall>t later'. begin_op p s (t # later') = begin_op p t later'))
   \<and> (committing (logger s) = 0
        \<and> n (lh (logger s)) + (outstanding (logger s) + 1) * MAXOPBLOCKS p \<le> LOGSIZE p
      \<longrightarrow> begin_op p s later =
            Some (s\<lparr>logger := (logger s)\<lparr>outstanding := outstanding (logger s) + 1\<rparr>,
                    locked := False\<rparr>))"
proof (intro conjI impI)
  assume "begin_op p s later = Some s'"
  then have "\<exists>t\<in>set (acquire s # map acquire later). begin_op_test p t = Some s'"
    unfolding begin_op_def by (rule begin_op_loop_admits)
  then obtain t where t: "t \<in> set (s # later)" "begin_op_test p (acquire t) = Some s'"
    by auto
  from t(2) have "committing (logger t) = 0
         \<and> n (lh (logger t)) + (outstanding (logger t) + 1) * MAXOPBLOCKS p \<le> LOGSIZE p
         \<and> s' = t\<lparr>logger := (logger t)\<lparr>outstanding := outstanding (logger t) + 1\<rparr>,
                   locked := False\<rparr>"
    by (simp add: begin_op_test_Some acquire_def release_def set_outstanding_def)
  with t(1) show "\<exists>t\<in>set (s # later). committing (logger t) = 0
         \<and> n (lh (logger t)) + (outstanding (logger t) + 1) * MAXOPBLOCKS p \<le> LOGSIZE p
         \<and> s' = t\<lparr>logger := (logger t)\<lparr>outstanding := outstanding (logger t) + 1\<rparr>,
                   locked := False\<rparr>"
    by blast
next
  assume "committing (logger s) \<noteq> 0
        \<or> LOGSIZE p < n (lh (logger s)) + (outstanding (logger s) + 1) * MAXOPBLOCKS p"
  then have "begin_op_test p (acquire s) = None"
    by (simp add: begin_op_test_None acquire_def)
  then show "begin_op p s [] = None"
    and "\<forall>t later'. begin_op p s (t # later') = begin_op p t later'"
    by (simp_all add: begin_op_def)
next
  assume "committing (logger s) = 0
        \<and> n (lh (logger s)) + (outstanding (logger s) + 1) * MAXOPBLOCKS p \<le> LOGSIZE p"
  then have "begin_op_test p (acquire s) =
     Some (s\<lparr>logger := (logger s)\<lparr>outstanding := outstanding (logger s) + 1\<rparr>,
                    locked := False\<rparr>)"
    by (simp add: begin_op_test_def acquire_def release_def set_outstanding_def)
  then show "begin_op p s later =
            Some (s\<lparr>logger := (logger s)\<lparr>outstanding := outstanding (logger s) + 1\<rparr>,
                    locked := False\<rparr>)"
    by (cases later) (simp_all add: begin_op_def)
qed

theorem begin_op_admission_witness:
  "committing (logger ex_sys) = 0
   \<and> n (lh (logger ex_sys)) + (outstanding (logger ex_sys) + 1) * MAXOPBLOCKS xv6_params
        \<le> LOGSIZE xv6_params
   \<and> begin_op xv6_params ex_sys [] =
        Some (ex_sys\<lparr>logger := (logger ex_sys)\<lparr>outstanding := outstanding (logger ex_sys) + 1\<rparr>,
                     locked := False\<rparr>)
   \<and> outstanding (logger ex_sys) + 1 = 2
   \<and> committing (logger (set_committing 1 ex_sys)) \<noteq> 0
   \<and> begin_op xv6_params (set_committing 1 ex_sys) [] = None
   \<and> begin_op xv6_params (set_committing 1 ex_sys) [ex_sys] = begin_op xv6_params ex_sys []
   \<and> (\<exists>t\<in>set [set_committing 1 ex_sys, ex_sys]. committing (logger t) = 0
         \<and> n (lh (logger t)) + (outstanding (logger t) + 1) * MAXOPBLOCKS xv6_params
              \<le> LOGSIZE xv6_params
         \<and> ex_sys\<lparr>logger := (logger ex_sys)\<lparr>outstanding := outstanding (logger ex_sys) + 1\<rparr>,
                     locked := False\<rparr>
            = t\<lparr>logger := (logger t)\<lparr>outstanding := outstanding (logger t) + 1\<rparr>,
                   locked := False\<rparr>)"
proof -
  have a: "committing (logger ex_sys) = 0
   \<and> n (lh (logger ex_sys)) + (outstanding (logger ex_sys) + 1) * MAXOPBLOCKS xv6_params
        \<le> LOGSIZE xv6_params"
    by (simp add: ex_sys_def ex_log_def xv6_params_def)
  have a': "outstanding (logger ex_sys) + 1 = 2"
    by (simp add: ex_sys_def ex_log_def)
  have b: "committing (logger (set_committing 1 ex_sys)) \<noteq> 0"
    by (simp add: set_committing_def)
  have c: "begin_op xv6_params ex_sys [] =
        Some (ex_sys\<lparr>logger := (logger ex_sys)\<lparr>outstanding := outstanding (logger ex_sys) + 1\<rparr>,
                     locked := False\<rparr>)"
    using begin_op_admission[of xv6_params ex_sys "[]"] a by blast
  have d: "begin_op xv6_params (set_committing 1 ex_sys) [] = None"
    "begin_op xv6_params (set_committing 1 ex_sys) [ex_sys] = begin_op xv6_params ex_sys []"
    using begin_op_admission[of xv6_params "set_committing 1 ex_sys"] b by blast+
  have e: "\<exists>t\<in>set (set_committing 1 ex_sys # [ex_sys]). committing (logger t) = 0
         \<and> n (lh (logger t)) + (outstanding (logger t) + 1) * MAXOPBLOCKS xv6_params
              \<le> LOGSIZE xv6_params
         \<and> ex_sys\<lparr>logger := (logger ex_sys)\<lparr>outstanding := outstanding (logger ex_sys) + 1\<rparr>,
                     locked := False\<rparr>
            = t\<lparr>logger := (logger t)\<lparr>outstanding := outstanding (logger t) + 1\<rparr>,
                   locked := False\<rparr>"
    using begin_op_admission[of xv6_params "set_committing 1 ex_sys" "[ex_sys]"
      "ex_sys\<lparr>logger := (logger ex_sys)\<lparr>outstanding := outstanding (logger ex_sys) + 1\<rparr>,
                     locked := False\<rparr>"] d(2) c
    by (elim conjE) (erule mp, simp)
  from a a' b c d e show ?thesis by blast
qed

subsection \<open>The commit\<close>

lemma replay_map_keyed:
  "replay (map (\<lambda>i. (f i, X (f i))) js) d = (\<lambda>b. if b \<in> f ` set js then X b else d b)"
proof (induction js arbitrary: d)
  case Nil
  show ?case by (simp add: replay_Nil)
next
  case (Cons j js)
  show ?case by (rule ext) (simp add: replay_Cons Cons.IH)
qed

lemma replay_map_inj:
  "inj_on f (set js) \<Longrightarrow> distinct js \<Longrightarrow> i \<in> set js \<Longrightarrow>
   replay (map (\<lambda>i. (f i, g i)) js) d (f i) = g i"
proof (induction js arbitrary: d)
  case Nil
  then show ?case by simp
next
  case (Cons j js)
  show ?case
  proof (cases "i = j")
    case True
    with Cons.prems have "f j \<notin> fst ` set (map (\<lambda>i. (f i, g i)) js)"
      by (auto simp: inj_on_def)
    from replay_notin[OF this] True show ?thesis
      by (simp add: replay_Cons)
  next
    case False
    with Cons.prems have "inj_on f (set js)" "distinct js" "i \<in> set js" by auto
    from Cons.IH[OF this] show ?thesis by (simp add: replay_Cons)
  qed
qed

lemma slot_buf_inj: "inj_on (slot_buf s) A"
  by (simp add: inj_on_def slot_buf_def)

lemma hdr_not_slot: "0 \<le> i \<Longrightarrow> hdr_buf s \<noteq> slot_buf s i"
  by (simp add: hdr_buf_def slot_buf_def)

lemma fst_log_writes:
  "fst ` set (log_writes s k) = slot_buf s ` {k..n (lh (logger s)) - 1}"
  by (simp add: log_writes_def image_image)

lemma fst_home_writes:
  "fst ` set (home_writes s) = home_buf s ` {0..n (lh (logger s)) - 1}"
  by (simp add: home_writes_def image_image)

lemma hdr_notin_log_writes: "0 \<le> k \<Longrightarrow> hdr_buf s \<notin> fst ` set (log_writes s k)"
proof
  assume k: "0 \<le> k" and "hdr_buf s \<in> fst ` set (log_writes s k)"
  then obtain i where "k \<le> i" "hdr_buf s = slot_buf s i"
    unfolding fst_log_writes by auto
  with k hdr_not_slot[of i s] show False by simp
qed

lemma home_notin_log_writes:
  assumes "homes_apart (logger s)" "0 \<le> i" "i < n (lh (logger s))"
  shows "home_buf s i \<notin> fst ` set (log_writes s 0)"
proof
  assume "home_buf s i \<in> fst ` set (log_writes s 0)"
  then obtain j where "0 \<le> j" "j < n (lh (logger s))" "home_buf s i = slot_buf s j"
    unfolding fst_log_writes by auto
  with home_slot_neq[OF assms this(1,2)] show False by simp
qed

lemma hdr_notin_home_writes:
  assumes "homes_apart (logger s)"
  shows "hdr_buf s \<notin> fst ` set (home_writes s)"
proof
  assume "hdr_buf s \<in> fst ` set (home_writes s)"
  then obtain i where "0 \<le> i" "i < n (lh (logger s))" "hdr_buf s = home_buf s i"
    unfolding fst_home_writes by auto
  with home_hdr_neq[OF assms this(1,2)] show False by simp
qed

lemma slot_notin_home_writes:
  assumes "homes_apart (logger s)" "0 \<le> j" "j < n (lh (logger s))"
  shows "slot_buf s j \<notin> fst ` set (home_writes s)"
proof
  assume "slot_buf s j \<in> fst ` set (home_writes s)"
  then obtain i where "0 \<le> i" "i < n (lh (logger s))" "home_buf s i = slot_buf s j"
    unfolding fst_home_writes by auto
  with home_slot_neq[OF assms(1) this(1,2) assms(2,3)] show False by simp
qed

lemma log_writes_slot:
  assumes "0 \<le> i" "i < n (lh (logger s))"
  shows "replay (log_writes s 0) d (slot_buf s i) = bdata s (home_buf s i)"
  unfolding log_writes_def
  by (rule replay_map_inj[OF slot_buf_inj]) (use assms in auto)

lemma log_writes_cong:
  "logger s' = logger s \<Longrightarrow> bdata s' = bdata s \<Longrightarrow> log_writes s' = log_writes s"
  by (intro ext) (simp add: log_writes_def slot_buf_def home_buf_def)

lemma install_writes_cong:
  "logger s' = logger s \<Longrightarrow> bdata s' = bdata s \<Longrightarrow> install_writes s' = install_writes s"
  by (intro ext) (simp add: install_writes_def slot_buf_def home_buf_def)

lemma commit_views:
  assumes "hdr_fits p" "0 < n (lh (logger s))" "n (lh (logger s)) \<le> LOGSIZE p"
    "homes_apart (logger s)"
  shows "\<exists>s'. commit p s = Inr s' \<and> logger s' = (logger s)\<lparr>lh := (lh (logger s))\<lparr>n := 0\<rparr>\<rparr>
    \<and> locked s' = locked s \<and> wakeups s' = wakeups s
    \<and> refcnt s' = (\<lambda>b. refcnt s b - unpins s 0 b)
    \<and> writes s' = writes s @ commit_writes s
    \<and> disk s' = replay (commit_writes s) (disk s)
    \<and> bdata s' = replay (commit_writes s) (bdata s)"
proof -
  define H where "H = hdr_image (lh (logger s)) (bdata s (hdr_buf s))"
  from write_log_loop_views[OF order_refl assms(3,4)] obtain s1 where
    r1: "write_log p s = Inr s1" and g1: "logger s1 = logger s"
    and l1: "refcnt s1 = refcnt s" "locked s1 = locked s" "wakeups s1 = wakeups s"
    and w1: "writes s1 = writes s @ log_writes s 0"
    and d1: "disk s1 = replay (log_writes s 0) (disk s)"
    and c1: "bdata s1 = replay (log_writes s 0) (bdata s)"
    unfolding write_log_def by blast
  have h1: "hdr_buf s1 = hdr_buf s" by (rule hdr_buf_cong[OF g1])
  have ch1: "bdata s1 (hdr_buf s) = bdata s (hdr_buf s)"
    unfolding c1 by (rule replay_notin[OF hdr_notin_log_writes]) simp
  have n1: "n (lh (logger s1)) \<le> LOGSIZE p" using assms(3) by (simp add: g1)
  from write_head_views[OF assms(1) n1] obtain s2 where
    r2: "write_head p s1 = Inr s2" and g2: "logger s2 = logger s"
    and l2: "refcnt s2 = refcnt s" "locked s2 = locked s" "wakeups s2 = wakeups s"
    and w2: "writes s2 = writes s1 @ [(hdr_buf s, H)]"
    and d2: "disk s2 = (disk s1)(hdr_buf s := H)"
    and c2: "bdata s2 = (bdata s1)(hdr_buf s := H)"
    unfolding h1 g1 ch1 H_def[symmetric] l1 by blast
  have n2: "n (lh (logger s2)) \<le> LOGSIZE p" "homes_apart (logger s2)"
    using assms(3,4) by (simp_all add: g2)
  have iw: "install_writes s2 0 = home_writes s"
    unfolding install_writes_def home_writes_def g2 slot_buf_cong[OF g2] home_buf_cong[OF g2]
  proof (rule map_cong[OF refl])
    fix i assume "i \<in> set [0..n (lh (logger s)) - 1]"
    then have i: "0 \<le> i" "i < n (lh (logger s))" by auto
    have "bdata s2 (slot_buf s i) = bdata s1 (slot_buf s i)"
      using hdr_not_slot[OF i(1), of s] by (simp add: c2)
    also have "\<dots> = bdata s (home_buf s i)"
      unfolding c1 by (rule log_writes_slot[OF i])
    finally show "(home_buf s i, bdata s2 (slot_buf s i)) = (home_buf s i, bdata s (home_buf s i))"
      by simp
  qed
  from install_trans_loop_views[OF order_refl n2, of 0] obtain s3 where
    r3: "install_trans p 0 s2 = Inr s3" and g3: "logger s3 = logger s"
    and l3: "locked s3 = locked s" "wakeups s3 = wakeups s"
    and w3: "writes s3 = writes s2 @ home_writes s"
    and d3: "disk s3 = replay (home_writes s) (disk s2)"
    and c3: "bdata s3 = replay (home_writes s) (bdata s2)"
    and f3: "refcnt s3 = (\<lambda>b. refcnt s b - unpins s 0 b)"
    unfolding install_trans_def iw g2 l2 unpins_cong[OF g2] by auto
  define s3' where "s3' = set_n 0 s3"
  have g3': "logger s3' = (logger s)\<lparr>lh := (lh (logger s))\<lparr>n := 0\<rparr>\<rparr>"
    and l3': "locked s3' = locked s" "wakeups s3' = wakeups s" "writes s3' = writes s3"
      "disk s3' = disk s3" "refcnt s3' = refcnt s3"
    and c3': "bdata s3' = bdata s3"
    by (simp_all add: s3'_def set_n_def g3 l3 bdata_simps)
  have h3: "hdr_buf s3' = hdr_buf s" by (simp add: hdr_buf_def g3')
  have ch3: "bdata s3' (hdr_buf s) = H"
    unfolding c3' c3 using replay_notin[OF hdr_notin_home_writes[OF assms(4)]]
    by (simp add: c2)
  have n3: "n (lh (logger s3')) \<le> LOGSIZE p" using assms(1) by (simp add: g3' hdr_fits_def)
  have img: "hdr_image (lh (logger s3')) H = H(0 := 0)"
    by (rule hdr_image_zero) (simp add: g3')
  from write_head_views[OF assms(1) n3] obtain s4 where
    r4: "write_head p s3' = Inr s4" and g4: "logger s4 = logger s3'"
    and l4: "refcnt s4 = refcnt s3'" "locked s4 = locked s3'" "wakeups s4 = wakeups s3'"
    and w4: "writes s4 = writes s3' @ [(hdr_buf s, H(0 := 0))]"
    and d4: "disk s4 = (disk s3')(hdr_buf s := H(0 := 0))"
    and c4: "bdata s4 = (bdata s3')(hdr_buf s := H(0 := 0))"
    unfolding h3 ch3 img by blast
  have "commit p s = Inr s4"
    using assms(2) by (simp add: commit_def r1 r2 r3 r4 s3'_def[symmetric])
  moreover have "writes s4 = writes s @ commit_writes s"
    by (simp add: commit_writes_def H_def[symmetric] w4 l3' w3 w2 w1)
  moreover have "disk s4 = replay (commit_writes s) (disk s)"
    by (simp add: commit_writes_def H_def[symmetric] replay_append replay_Cons replay_Nil
        d4 l3' d3 d2 d1)
  moreover have "bdata s4 = replay (commit_writes s) (bdata s)"
    by (simp add: commit_writes_def H_def[symmetric] replay_append replay_Cons replay_Nil
        c4 c3' c3 c2 c1)
  ultimately show ?thesis
    using g4 g3' l4 l3' f3 by (intro exI[of _ s4]) simp
qed

lemma replay_home_writes:
  "replay (home_writes s) d =
     (\<lambda>b. if b \<in> home_buf s ` {0..n (lh (logger s)) - 1} then bdata s b else d b)"
  unfolding home_writes_def by (simp add: replay_map_keyed)

lemma replay_commit_writes_hdr:
  "replay (commit_writes s) d (hdr_buf s)
     = (hdr_image (lh (logger s)) (bdata s (hdr_buf s)))(0 := 0)"
  by (simp add: commit_writes_def replay_append replay_Cons replay_Nil)

lemma replay_commit_writes_slot:
  assumes "homes_apart (logger s)" "0 \<le> i" "i < n (lh (logger s))"
  shows "replay (commit_writes s) d (slot_buf s i) = bdata s (home_buf s i)"
proof -
  have "slot_buf s i \<notin> home_buf s ` {0..n (lh (logger s)) - 1}"
    using slot_notin_home_writes[OF assms] by (simp add: fst_home_writes)
  then show ?thesis
    using hdr_not_slot[OF assms(2), of s] log_writes_slot[OF assms(2,3)]
    by (simp add: commit_writes_def replay_append replay_Cons replay_Nil replay_home_writes)
qed

lemma replay_commit_writes_home:
  assumes "homes_apart (logger s)" "0 \<le> i" "i < n (lh (logger s))"
  shows "replay (commit_writes s) d (home_buf s i) = bdata s (home_buf s i)"
proof -
  have "home_buf s i \<in> home_buf s ` {0..n (lh (logger s)) - 1}"
    using assms(2,3) by simp
  then show ?thesis
    using home_hdr_neq[OF assms]
    by (simp add: commit_writes_def replay_append replay_Cons replay_Nil replay_home_writes)
qed

lemma length_commit_writes:
  "length (commit_writes s) = 2 * nat (n (lh (logger s))) + 2"
  by (simp add: commit_writes_def log_writes_def home_writes_def)

text \<open>
  Claim C2. \<^verbatim>\<open>commit\<close> does nothing when the count is \<open>0\<close>. On a transaction of
  \<open>n > 0\<close> entries whose home blocks lie outside the log, it returns and its disk writes
  are, in this order: for each entry \<open>i\<close> the cached contents of the home block, written
  to the log slot \<open>start + i + 1\<close>; the in-memory header (count and block numbers),
  written to the header block; for each entry the contents of its slot, written to the
  home block, each home block losing the reference that pinned it; the header with count
  \<open>0\<close>. The disk is the result of these writes, and the in-memory count is \<open>0\<close>.
\<close>

theorem commit_four_phases:
  "(n (lh (logger s)) = 0 \<longrightarrow> commit p s = Inr s)
   \<and> (hdr_fits p \<and> 0 < n (lh (logger s)) \<and> n (lh (logger s)) \<le> LOGSIZE p
        \<and> homes_apart (logger s)
      \<longrightarrow> (\<exists>s'. commit p s = Inr s'
             \<and> writes s' = writes s
                 @ map (\<lambda>i. (slot_buf s i, bdata s (home_buf s i))) [0..n (lh (logger s)) - 1]
                 @ [(hdr_buf s, hdr_image (lh (logger s)) (bdata s (hdr_buf s)))]
                 @ map (\<lambda>i. (home_buf s i, bdata s (home_buf s i))) [0..n (lh (logger s)) - 1]
                 @ [(hdr_buf s, (hdr_image (lh (logger s)) (bdata s (hdr_buf s)))(0 := 0))]
             \<and> disk s' = replay (new_writes s s') (disk s)
             \<and> (\<forall>i\<in>{0..<n (lh (logger s))}.
                    disk s' (slot_buf s i) = bdata s (home_buf s i)
                  \<and> disk s' (home_buf s i) = disk s' (slot_buf s i))
             \<and> refcnt s' = (\<lambda>b. refcnt s b - unpins s 0 b)
             \<and> logger s' = (logger s)\<lparr>lh := (lh (logger s))\<lparr>n := 0\<rparr>\<rparr>))"
proof (intro conjI impI)
  assume "n (lh (logger s)) = 0"
  then show "commit p s = Inr s" by (simp add: commit_def)
next
  assume a: "hdr_fits p \<and> 0 < n (lh (logger s)) \<and> n (lh (logger s)) \<le> LOGSIZE p
        \<and> homes_apart (logger s)"
  then have ap: "homes_apart (logger s)" by simp
  from a commit_views[of p s] obtain s' where
    r: "commit p s = Inr s'" and g: "logger s' = (logger s)\<lparr>lh := (lh (logger s))\<lparr>n := 0\<rparr>\<rparr>"
    and f: "refcnt s' = (\<lambda>b. refcnt s b - unpins s 0 b)"
    and w: "writes s' = writes s @ commit_writes s"
    and d: "disk s' = replay (commit_writes s) (disk s)"
    by blast
  have nw: "new_writes s s' = commit_writes s"
    by (simp add: new_writes_def w)
  have sl: "\<forall>i\<in>{0..<n (lh (logger s))}.
                    disk s' (slot_buf s i) = bdata s (home_buf s i)
                  \<and> disk s' (home_buf s i) = disk s' (slot_buf s i)"
    unfolding d using replay_commit_writes_slot[OF ap] replay_commit_writes_home[OF ap]
    by simp
  from r g f w sl show "\<exists>s'. commit p s = Inr s'
             \<and> writes s' = writes s
                 @ map (\<lambda>i. (slot_buf s i, bdata s (home_buf s i))) [0..n (lh (logger s)) - 1]
                 @ [(hdr_buf s, hdr_image (lh (logger s)) (bdata s (hdr_buf s)))]
                 @ map (\<lambda>i. (home_buf s i, bdata s (home_buf s i))) [0..n (lh (logger s)) - 1]
                 @ [(hdr_buf s, (hdr_image (lh (logger s)) (bdata s (hdr_buf s)))(0 := 0))]
             \<and> disk s' = replay (new_writes s s') (disk s)
             \<and> (\<forall>i\<in>{0..<n (lh (logger s))}.
                    disk s' (slot_buf s i) = bdata s (home_buf s i)
                  \<and> disk s' (home_buf s i) = disk s' (slot_buf s i))
             \<and> refcnt s' = (\<lambda>b. refcnt s b - unpins s 0 b)
             \<and> logger s' = (logger s)\<lparr>lh := (lh (logger s))\<lparr>n := 0\<rparr>\<rparr>"
    by (intro exI[of _ s']) (simp add: nw d commit_writes_def log_writes_def home_writes_def)
qed

theorem commit_four_phases_witness:
  "n (lh (logger ex_sys)) = 0 \<and> commit xv6_params ex_sys = Inr ex_sys
   \<and> hdr_fits xv6_params \<and> 0 < n (lh (logger ex_tx)) \<and> n (lh (logger ex_tx)) \<le> LOGSIZE xv6_params
   \<and> homes_apart (logger ex_tx)
   \<and> (\<exists>s'. commit xv6_params ex_tx = Inr s'
         \<and> writes s' =
             [((1, 3), \<lambda>_. 7), ((1, 4), \<lambda>_. 9),
              ((1, 2), hdr_image (lh (logger ex_tx)) (\<lambda>_. 0)),
              ((1, 40), \<lambda>_. 7), ((1, 41), \<lambda>_. 9),
              ((1, 2), (hdr_image (lh (logger ex_tx)) (\<lambda>_. 0))(0 := 0))]
         \<and> disk s' (1, 3) = (\<lambda>_. 7) \<and> disk s' (1, 40) = (\<lambda>_. 7)
         \<and> disk s' (1, 4) = (\<lambda>_. 9) \<and> disk s' (1, 41) = (\<lambda>_. 9)
         \<and> n (lh (logger s')) = 0)"
proof -
  have a0: "n (lh (logger ex_sys)) = 0" by (simp add: ex_sys_def ex_log_def)
  have a: "hdr_fits xv6_params \<and> 0 < n (lh (logger ex_tx))
     \<and> n (lh (logger ex_tx)) \<le> LOGSIZE xv6_params \<and> homes_apart (logger ex_tx)"
    using hdr_fits_xv6 homes_apart_ex_tx by (simp add: ex_tx_views xv6_params_def)
  have u: "[0..n (lh (logger ex_tx)) - 1] = [0, 1]"
    by (simp add: ex_tx_views upto_rec1)
  have w: "writes ex_tx = []" by (simp add: ex_tx_def ex_sys_def boot_def)
  have c0: "commit xv6_params ex_sys = Inr ex_sys"
    using commit_four_phases[of ex_sys xv6_params] a0 by blast
  from commit_four_phases[of ex_tx xv6_params] a obtain s' where
    r: "commit xv6_params ex_tx = Inr s'"
    and ws: "writes s' = writes ex_tx
                 @ map (\<lambda>i. (slot_buf ex_tx i, bdata ex_tx (home_buf ex_tx i))) [0..n (lh (logger ex_tx)) - 1]
                 @ [(hdr_buf ex_tx, hdr_image (lh (logger ex_tx)) (bdata ex_tx (hdr_buf ex_tx)))]
                 @ map (\<lambda>i. (home_buf ex_tx i, bdata ex_tx (home_buf ex_tx i))) [0..n (lh (logger ex_tx)) - 1]
                 @ [(hdr_buf ex_tx, (hdr_image (lh (logger ex_tx)) (bdata ex_tx (hdr_buf ex_tx)))(0 := 0))]"
    and sl: "\<forall>i\<in>{0..<n (lh (logger ex_tx))}.
                    disk s' (slot_buf ex_tx i) = bdata ex_tx (home_buf ex_tx i)
                  \<and> disk s' (home_buf ex_tx i) = disk s' (slot_buf ex_tx i)"
    and g: "logger s' = (logger ex_tx)\<lparr>lh := (lh (logger ex_tx))\<lparr>n := 0\<rparr>\<rparr>"
    by blast
  from sl have "disk s' (slot_buf ex_tx 0) = bdata ex_tx (home_buf ex_tx 0)
                  \<and> disk s' (home_buf ex_tx 0) = disk s' (slot_buf ex_tx 0)"
    "disk s' (slot_buf ex_tx 1) = bdata ex_tx (home_buf ex_tx 1)
                  \<and> disk s' (home_buf ex_tx 1) = disk s' (slot_buf ex_tx 1)"
    by (simp_all add: ex_tx_views(1))
  then have d: "disk s' (1, 3) = (\<lambda>_. 7) \<and> disk s' (1, 40) = (\<lambda>_. 7)
         \<and> disk s' (1, 4) = (\<lambda>_. 9) \<and> disk s' (1, 41) = (\<lambda>_. 9)"
    by (simp add: ex_tx_views)
  have ws': "writes s' =
             [((1, 3), \<lambda>_. 7), ((1, 4), \<lambda>_. 9),
              ((1, 2), hdr_image (lh (logger ex_tx)) (\<lambda>_. 0)),
              ((1, 40), \<lambda>_. 7), ((1, 41), \<lambda>_. 9),
              ((1, 2), (hdr_image (lh (logger ex_tx)) (\<lambda>_. 0))(0 := 0))]"
    unfolding ws u w by (simp add: ex_tx_views)
  have "n (lh (logger s')) = 0" by (simp add: g)
  with a0 c0 a r ws' d show ?thesis by blast
qed

subsection \<open>\<^verbatim>\<open>end_op\<close>\<close>
















subsection \<open>Recovery\<close>

lemma fst_install_writes:
  "fst ` set (install_writes s k) = home_buf s ` {k..n (lh (logger s)) - 1}"
  by (simp add: install_writes_def image_image)

lemma hdr_notin_install_writes:
  assumes "homes_apart (logger s)"
  shows "hdr_buf s \<notin> fst ` set (install_writes s 0)"
proof
  assume "hdr_buf s \<in> fst ` set (install_writes s 0)"
  then obtain i where "0 \<le> i" "i < n (lh (logger s))" "hdr_buf s = home_buf s i"
    unfolding fst_install_writes by auto
  with home_hdr_neq[OF assms this(1,2)] show False by simp
qed

lemma recover_from_log_views:
  assumes "hdr_fits p" "bdata s (hdr_buf s) 0 \<le> LOGSIZE p" "homes_apart (logger (after_read s))"
  shows "\<exists>s'. recover_from_log p s = Inr s'
    \<and> logger s' = (logger (after_read s))\<lparr>lh := (lh (logger (after_read s)))\<lparr>n := 0\<rparr>\<rparr>
    \<and> locked s' = locked s \<and> wakeups s' = wakeups s \<and> refcnt s' = refcnt s
    \<and> writes s' = writes s @ install_writes (after_read s) 0
                     @ [(hdr_buf s, (bdata s (hdr_buf s))(0 := 0))]
    \<and> disk s' = replay (install_writes (after_read s) 0
                     @ [(hdr_buf s, (bdata s (hdr_buf s))(0 := 0))]) (disk s)
    \<and> bdata s' = replay (install_writes (after_read s) 0
                     @ [(hdr_buf s, (bdata s (hdr_buf s))(0 := 0))]) (bdata s)"
proof -
  define sr where "sr = after_read s"
  have gr: "logger sr = (logger s)\<lparr>lh := hdr_read (bdata s (hdr_buf s)) (lh (logger s))\<rparr>"
    and cr: "bdata sr = bdata s"
    by (simp_all add: sr_def after_read_def bdata_simps)
  have hr: "hdr_buf sr = hdr_buf s" by (simp add: hdr_buf_def gr)
  from read_head_views[OF assms(1,2)] obtain s1 where
    r1: "read_head p s = Inr s1" and g1: "logger s1 = logger sr"
    and l1: "locked s1 = locked s" "wakeups s1 = wakeups s" "refcnt s1 = refcnt s"
      "writes s1 = writes s" "disk s1 = disk s" "bdata s1 = bdata s"
    unfolding gr by blast
  have n1: "n (lh (logger s1)) \<le> LOGSIZE p" "homes_apart (logger s1)"
    using assms(2,3) by (simp_all add: g1 sr_def[symmetric]) (simp add: gr hdr_read_def)
  have iw: "install_writes s1 = install_writes sr"
    by (rule install_writes_cong) (simp_all add: g1 l1 cr)
  from install_trans_loop_views[OF order_refl n1, of 1] obtain s2 where
    r2: "install_trans p 1 s1 = Inr s2" and g2: "logger s2 = logger sr"
    and l2: "locked s2 = locked s" "wakeups s2 = wakeups s" "refcnt s2 = refcnt s"
    and w2: "writes s2 = writes s @ install_writes sr 0"
    and d2: "disk s2 = replay (install_writes sr 0) (disk s)"
    and c2: "bdata s2 = replay (install_writes sr 0) (bdata s)"
    unfolding install_trans_def iw g1 l1 by auto
  define s3 where "s3 = set_n 0 s2"
  have g3: "logger s3 = (logger sr)\<lparr>lh := (lh (logger sr))\<lparr>n := 0\<rparr>\<rparr>"
    and l3: "locked s3 = locked s" "wakeups s3 = wakeups s" "refcnt s3 = refcnt s"
      "writes s3 = writes s2" "disk s3 = disk s2"
    and c3: "bdata s3 = bdata s2"
    by (simp_all add: s3_def set_n_def g2 l2 bdata_simps)
  have h3: "hdr_buf s3 = hdr_buf s" by (simp add: hdr_buf_def g3 gr)
  have ch3: "bdata s3 (hdr_buf s) = bdata s (hdr_buf s)"
    unfolding c3 c2 using replay_notin[OF hdr_notin_install_writes[of sr]] assms(3)
    by (simp add: sr_def[symmetric] hr)
  have n3: "n (lh (logger s3)) \<le> LOGSIZE p" using assms(1) by (simp add: g3 hdr_fits_def)
  have img: "hdr_image (lh (logger s3)) (bdata s (hdr_buf s)) = (bdata s (hdr_buf s))(0 := 0)"
    by (rule hdr_image_zero) (simp add: g3)
  from write_head_views[OF assms(1) n3] obtain s4 where
    r4: "write_head p s3 = Inr s4" and g4: "logger s4 = logger s3"
    and l4: "refcnt s4 = refcnt s3" "locked s4 = locked s3" "wakeups s4 = wakeups s3"
    and w4: "writes s4 = writes s3 @ [(hdr_buf s, (bdata s (hdr_buf s))(0 := 0))]"
    and d4: "disk s4 = (disk s3)(hdr_buf s := (bdata s (hdr_buf s))(0 := 0))"
    and c4: "bdata s4 = (bdata s3)(hdr_buf s := (bdata s (hdr_buf s))(0 := 0))"
    unfolding h3 ch3 img by blast
  have "recover_from_log p s = Inr s4"
    by (simp add: recover_from_log_def r1 r2 r4 s3_def[symmetric])
  moreover have "writes s4 = writes s @ install_writes sr 0
                     @ [(hdr_buf s, (bdata s (hdr_buf s))(0 := 0))]"
    by (simp add: w4 l3 w2)
  moreover have "disk s4 = replay (install_writes sr 0
                     @ [(hdr_buf s, (bdata s (hdr_buf s))(0 := 0))]) (disk s)"
    by (simp add: replay_append replay_Cons replay_Nil d4 l3 d2)
  moreover have "bdata s4 = replay (install_writes sr 0
                     @ [(hdr_buf s, (bdata s (hdr_buf s))(0 := 0))]) (bdata s)"
    by (simp add: replay_append replay_Cons replay_Nil c4 c3 c2)
  ultimately show ?thesis
    unfolding sr_def[symmetric]
    using g4 g3 l4 l3 by (intro exI[of _ s4]) simp
qed

lemma install_writes_empty: "n (lh (logger s)) \<le> 0 \<Longrightarrow> install_writes s 0 = []"
  by (simp add: install_writes_def)

lemma homes_apart_empty: "n (lh l) \<le> 0 \<Longrightarrow> homes_apart l"
  by (simp add: homes_apart_def)

lemma recover_from_log_empty:
  assumes "hdr_fits p" "bdata s (hdr_buf s) 0 \<le> 0"
  shows "\<exists>s'. recover_from_log p s = Inr s'
    \<and> logger s' = (logger s)\<lparr>lh := (lh (logger s))\<lparr>n := 0\<rparr>\<rparr>
    \<and> locked s' = locked s \<and> wakeups s' = wakeups s \<and> refcnt s' = refcnt s
    \<and> writes s' = writes s @ [(hdr_buf s, (bdata s (hdr_buf s))(0 := 0))]
    \<and> disk s' = (disk s)(hdr_buf s := (bdata s (hdr_buf s))(0 := 0))
    \<and> bdata s' = (bdata s)(hdr_buf s := (bdata s (hdr_buf s))(0 := 0))"
proof -
  have nr: "n (lh (logger (after_read s))) \<le> 0"
    using assms(2) by (simp add: after_read_def hdr_read_def)
  have bl: "(\<lambda>i. if 0 \<le> i \<and> i < bdata s (hdr_buf s) 0 then bdata s (hdr_buf s) (i + 1)
                  else block (lh (logger s)) i) = block (lh (logger s))"
    using assms(2) by (intro ext) simp
  have lg: "(logger (after_read s))\<lparr>lh := (lh (logger (after_read s)))\<lparr>n := 0\<rparr>\<rparr>
      = (logger s)\<lparr>lh := (lh (logger s))\<lparr>n := 0\<rparr>\<rparr>"
    by (simp add: after_read_def hdr_read_def bl)
  from assms(1,2) have le: "bdata s (hdr_buf s) 0 \<le> LOGSIZE p"
    by (simp add: hdr_fits_def)
  from recover_from_log_views[OF assms(1) le homes_apart_empty[OF nr]]
  show ?thesis
    unfolding install_writes_empty[OF nr] lg
    by (simp add: replay_Cons replay_Nil)
qed

lemma initlog_recover:
  "sizeof_logheader p < BSIZE p \<Longrightarrow>
   initlog p dv sb s = recover_from_log p (with_geometry dv sb s)"
  by (simp add: initlog_def with_geometry_def Let_def)

lemma with_geometry_views:
  "hdr_buf (with_geometry dv sb s) = (dv, logstart sb)"
  "bdata (with_geometry dv sb s) = bdata s"
  "disk (with_geometry dv sb s) = disk s"
  "writes (with_geometry dv sb s) = writes s"
  "refcnt (with_geometry dv sb s) = refcnt s"
  "lh (logger (with_geometry dv sb s)) = lh (logger s)"
  "start (logger (with_geometry dv sb s)) = logstart sb"
  "size_log (logger (with_geometry dv sb s)) = nlog sb"
  "dev (logger (with_geometry dv sb s)) = dv"
  "outstanding (logger (with_geometry dv sb s)) = outstanding (logger s)"
  "committing (logger (with_geometry dv sb s)) = committing (logger s)"
  by (simp_all add: with_geometry_def initlock_def hdr_buf_def bdata_simps)

lemma boot_views:
  "bdata (boot d) = d" "disk (boot d) = d" "writes (boot d) = []" "refcnt (boot d) = (\<lambda>_. 0)"
  "lh (logger (boot d)) = \<lparr>n = 0, block = (\<lambda>_. 0)\<rparr>"
  "outstanding (logger (boot d)) = 0" "committing (logger (boot d)) = 0"
  by (simp_all add: bdata_boot) (simp_all add: boot_def)

lemma recover_from_log_total:
  assumes "hdr_fits p" "bdata s (hdr_buf s) 0 \<le> LOGSIZE p"
  shows "\<exists>s'. recover_from_log p s = Inr s'
    \<and> logger s' = (logger (after_read s))\<lparr>lh := (lh (logger (after_read s)))\<lparr>n := 0\<rparr>\<rparr>
    \<and> locked s' = locked s \<and> wakeups s' = wakeups s \<and> refcnt s' = refcnt s
    \<and> bdata s' (hdr_buf s) 0 = 0 \<and> disk s' (hdr_buf s) = bdata s' (hdr_buf s)
    \<and> (\<exists>ws. writes s' = writes s @ ws @ [(hdr_buf s, disk s' (hdr_buf s))]
          \<and> map fst ws = map (home_buf (after_read s)) [0..bdata s (hdr_buf s) 0 - 1])"
proof -
  define sr where "sr = after_read s"
  have gr: "logger sr = (logger s)\<lparr>lh := hdr_read (bdata s (hdr_buf s)) (lh (logger s))\<rparr>"
    by (simp add: sr_def after_read_def)
  have nr: "n (lh (logger sr)) = bdata s (hdr_buf s) 0"
    by (simp add: gr hdr_read_def)
  from read_head_views[OF assms] obtain s1 where
    r1: "read_head p s = Inr s1" and g1: "logger s1 = logger sr"
    and l1: "locked s1 = locked s" "wakeups s1 = wakeups s" "refcnt s1 = refcnt s"
      "writes s1 = writes s"
    unfolding gr by blast
  have n1: "n (lh (logger s1)) \<le> LOGSIZE p"
    using assms(2) by (simp add: g1 nr)
  from install_trans_loop_returns[OF order_refl n1, of 1] obtain s2 ws where
    r2: "install_trans p 1 s1 = Inr s2" and g2: "logger s2 = logger sr"
    and l2: "locked s2 = locked s" "wakeups s2 = wakeups s" "refcnt s2 = refcnt s"
    and w2: "writes s2 = writes s @ ws"
    and k2: "map fst ws = map (home_buf sr) [0..bdata s (hdr_buf s) 0 - 1]"
    unfolding install_trans_def g1 l1 home_buf_cong[OF g1] nr by auto
  define s3 where "s3 = set_n 0 s2"
  have g3: "logger s3 = (logger sr)\<lparr>lh := (lh (logger sr))\<lparr>n := 0\<rparr>\<rparr>"
    and l3: "locked s3 = locked s" "wakeups s3 = wakeups s" "refcnt s3 = refcnt s"
      "writes s3 = writes s2"
    by (simp_all add: s3_def set_n_def g2 l2)
  have h3: "hdr_buf s3 = hdr_buf s" by (simp add: hdr_buf_def g3 gr)
  have n3: "n (lh (logger s3)) \<le> LOGSIZE p" using assms(1) by (simp add: g3 hdr_fits_def)
  define H where "H = hdr_image (lh (logger s3)) (bdata s3 (hdr_buf s))"
  have H0: "H 0 = 0" by (simp add: H_def hdr_image_def g3)
  from write_head_views[OF assms(1) n3] obtain s4 where
    r4: "write_head p s3 = Inr s4" and g4: "logger s4 = logger s3"
    and l4: "refcnt s4 = refcnt s3" "locked s4 = locked s3" "wakeups s4 = wakeups s3"
    and w4: "writes s4 = writes s3 @ [(hdr_buf s, H)]"
    and d4: "disk s4 = (disk s3)(hdr_buf s := H)"
    and c4: "bdata s4 = (bdata s3)(hdr_buf s := H)"
    unfolding h3 H_def[symmetric] by blast
  have "recover_from_log p s = Inr s4"
    by (simp add: recover_from_log_def r1 r2 r4 s3_def[symmetric])
  moreover have "writes s4 = writes s @ ws @ [(hdr_buf s, disk s4 (hdr_buf s))]"
    by (simp add: w4 l3 w2 d4)
  moreover have "bdata s4 (hdr_buf s) 0 = 0" "disk s4 (hdr_buf s) = bdata s4 (hdr_buf s)"
    by (simp_all add: c4 d4 H0)
  ultimately show ?thesis
    unfolding sr_def[symmetric]
    using g4 g3 l4 l3 k2 by (intro exI[of _ s4]) auto
qed

text \<open>
  Claim C8. For every state whose header block holds a count of at most \<open>LOGSIZE\<close> (a
  larger count would index \<open>block\<close> out of its bounds), \<^verbatim>\<open>recover_from_log\<close> returns;
  it writes the home block of each of the \<open>count\<close> entries of the header block, in
  order, and then the header block with count \<open>0\<close>; the reference
  count of every buffer is what it was, so nothing is unpinned. Running it again, at once
  or after a restart on the resulting disk, leaves the disk as the first run left it. When
  the home blocks lie outside the log, what is written to the home block of entry \<open>i\<close> is
  the contents of log slot \<open>i\<close>.
\<close>

theorem recovery_idempotent:
  "(hdr_fits p \<and> bdata s (hdr_buf s) 0 \<le> LOGSIZE p
      \<longrightarrow> (\<exists>s1. recover_from_log p s = Inr s1
             \<and> refcnt s1 = refcnt s
             \<and> n (lh (logger s1)) = 0 \<and> disk s1 (hdr_buf s) 0 = 0
             \<and> (\<exists>ws. writes s1 = writes s @ ws @ [(hdr_buf s, disk s1 (hdr_buf s))]
                   \<and> map fst ws = map (home_buf (after_read s)) [0..bdata s (hdr_buf s) 0 - 1])
             \<and> (\<exists>s2. recover_from_log p s1 = Inr s2 \<and> disk s2 = disk s1
                   \<and> refcnt s2 = refcnt s1)
             \<and> (sizeof_logheader p < BSIZE p
                 \<longrightarrow> (\<exists>s3. initlog p (dev (logger s))
                              \<lparr>logstart = start (logger s), nlog = size_log (logger s)\<rparr>
                              (boot (disk s1)) = Inr s3
                         \<and> disk s3 = disk s1))))
   \<and> (hdr_fits p \<and> bdata s (hdr_buf s) 0 \<le> LOGSIZE p \<and> homes_apart (logger (after_read s))
      \<longrightarrow> (\<exists>s1. recover_from_log p s = Inr s1
             \<and> writes s1 = writes s
                 @ map (\<lambda>i. (home_buf (after_read s) i, bdata s (slot_buf s i)))
                     [0..bdata s (hdr_buf s) 0 - 1]
                 @ [(hdr_buf s, (bdata s (hdr_buf s))(0 := 0))]
             \<and> disk s1 = replay (new_writes s s1) (disk s)))"
proof (intro conjI impI)
  assume a: "hdr_fits p \<and> bdata s (hdr_buf s) 0 \<le> LOGSIZE p"
  then have hf: "hdr_fits p" by simp
  from a recover_from_log_total[of p s] obtain s1 ws where
    r1: "recover_from_log p s = Inr s1"
    and g1: "logger s1 = (logger (after_read s))\<lparr>lh := (lh (logger (after_read s)))\<lparr>n := 0\<rparr>\<rparr>"
    and f1: "refcnt s1 = refcnt s"
    and z1: "bdata s1 (hdr_buf s) 0 = 0" and e1: "disk s1 (hdr_buf s) = bdata s1 (hdr_buf s)"
    and w1: "writes s1 = writes s @ ws @ [(hdr_buf s, disk s1 (hdr_buf s))]"
      "map fst ws = map (home_buf (after_read s)) [0..bdata s (hdr_buf s) 0 - 1]"
    by blast
  have h1: "hdr_buf s1 = hdr_buf s"
    by (simp add: hdr_buf_def g1 after_read_def)
  have same: "(disk s1)(hdr_buf s := (disk s1 (hdr_buf s))(0 := 0)) = disk s1"
  proof -
    have "(disk s1 (hdr_buf s))(0 := 0) = disk s1 (hdr_buf s)"
      using z1 by (simp add: e1 fun_upd_idem)
    then show ?thesis by simp
  qed
  have z1': "bdata s1 (hdr_buf s1) 0 \<le> 0" by (simp add: h1 z1)
  from recover_from_log_empty[OF hf z1'] obtain s2 where
    r2: "recover_from_log p s1 = Inr s2" and f2: "refcnt s2 = refcnt s1"
    and d2: "disk s2 = (disk s1)(hdr_buf s1 := (bdata s1 (hdr_buf s1))(0 := 0))"
    by blast
  have d2': "disk s2 = disk s1"
    unfolding d2 h1 e1[symmetric] by (rule same)
  have reboot: "sizeof_logheader p < BSIZE p
                 \<longrightarrow> (\<exists>s3. initlog p (dev (logger s))
                              \<lparr>logstart = start (logger s), nlog = size_log (logger s)\<rparr>
                              (boot (disk s1)) = Inr s3
                         \<and> disk s3 = disk s1)"
  proof
    assume sz: "sizeof_logheader p < BSIZE p"
    define sb where "sb = \<lparr>logstart = start (logger s), nlog = size_log (logger s)\<rparr>"
    define s0 where "s0 = with_geometry (dev (logger s)) sb (boot (disk s1))"
    have h0: "hdr_buf s0 = hdr_buf s"
      by (simp add: s0_def with_geometry_views sb_def hdr_buf_def)
    have c0: "bdata s0 = disk s1" "disk s0 = disk s1"
      by (simp_all add: s0_def with_geometry_views boot_views)
    have z0: "bdata s0 (hdr_buf s0) 0 \<le> 0"
      by (simp add: h0 c0 e1 z1)
    from recover_from_log_empty[OF hf z0] obtain s3 where
      r3: "recover_from_log p s0 = Inr s3"
      and d3: "disk s3 = (disk s0)(hdr_buf s0 := (bdata s0 (hdr_buf s0))(0 := 0))"
      by blast
    have "disk s3 = disk s1"
      unfolding d3 h0 c0 by (rule same)
    moreover have "initlog p (dev (logger s)) sb (boot (disk s1)) = Inr s3"
      using sz r3 by (simp add: initlog_recover s0_def)
    ultimately show "\<exists>s3. initlog p (dev (logger s))
                              \<lparr>logstart = start (logger s), nlog = size_log (logger s)\<rparr>
                              (boot (disk s1)) = Inr s3
                         \<and> disk s3 = disk s1"
      unfolding sb_def by blast
  qed
  have "n (lh (logger s1)) = 0" "disk s1 (hdr_buf s) 0 = 0"
    by (simp_all add: g1 e1 z1)
  with r1 f1 w1 r2 d2' f2 reboot
  show "\<exists>s1. recover_from_log p s = Inr s1
             \<and> refcnt s1 = refcnt s
             \<and> n (lh (logger s1)) = 0 \<and> disk s1 (hdr_buf s) 0 = 0
             \<and> (\<exists>ws. writes s1 = writes s @ ws @ [(hdr_buf s, disk s1 (hdr_buf s))]
                   \<and> map fst ws = map (home_buf (after_read s)) [0..bdata s (hdr_buf s) 0 - 1])
             \<and> (\<exists>s2. recover_from_log p s1 = Inr s2 \<and> disk s2 = disk s1
                   \<and> refcnt s2 = refcnt s1)
             \<and> (sizeof_logheader p < BSIZE p
                 \<longrightarrow> (\<exists>s3. initlog p (dev (logger s))
                              \<lparr>logstart = start (logger s), nlog = size_log (logger s)\<rparr>
                              (boot (disk s1)) = Inr s3
                         \<and> disk s3 = disk s1))"
    by (intro exI[of _ s1]) blast
next
  assume a: "hdr_fits p \<and> bdata s (hdr_buf s) 0 \<le> LOGSIZE p
     \<and> homes_apart (logger (after_read s))"
  have nr: "n (lh (logger (after_read s))) = bdata s (hdr_buf s) 0"
    by (simp add: after_read_def hdr_read_def)
  have iw: "install_writes (after_read s) 0
     = map (\<lambda>i. (home_buf (after_read s) i, bdata s (slot_buf s i)))
         [0..bdata s (hdr_buf s) 0 - 1]"
    by (simp add: install_writes_def nr)
      (simp add: after_read_def bdata_simps slot_buf_def)
  from a recover_from_log_views[of p s] obtain s1 where
    r1: "recover_from_log p s = Inr s1"
    and w1: "writes s1 = writes s @ install_writes (after_read s) 0
                     @ [(hdr_buf s, (bdata s (hdr_buf s))(0 := 0))]"
    and d1: "disk s1 = replay (install_writes (after_read s) 0
                     @ [(hdr_buf s, (bdata s (hdr_buf s))(0 := 0))]) (disk s)"
    by blast
  have "new_writes s s1 = install_writes (after_read s) 0
                     @ [(hdr_buf s, (bdata s (hdr_buf s))(0 := 0))]"
    by (simp add: new_writes_def w1)
  with r1 w1 d1 show "\<exists>s1. recover_from_log p s = Inr s1
             \<and> writes s1 = writes s
                 @ map (\<lambda>i. (home_buf (after_read s) i, bdata s (slot_buf s i)))
                     [0..bdata s (hdr_buf s) 0 - 1]
                 @ [(hdr_buf s, (bdata s (hdr_buf s))(0 := 0))]
             \<and> disk s1 = replay (new_writes s s1) (disk s)"
    by (intro exI[of _ s1]) (simp add: iw)
qed

theorem recovery_idempotent_witness:
  "hdr_fits xv6_params \<and> bdata ex_crashed (hdr_buf ex_crashed) 0 \<le> LOGSIZE xv6_params
   \<and> sizeof_logheader xv6_params < BSIZE xv6_params
   \<and> homes_apart (logger (after_read ex_crashed))
   \<and> (\<exists>s1. recover_from_log xv6_params ex_crashed = Inr s1
         \<and> refcnt s1 = refcnt ex_crashed
         \<and> n (lh (logger s1)) = 0 \<and> disk s1 (1, 2) 0 = 0
         \<and> writes s1 = [((1, 40), \<lambda>_. 7), ((1, 41), \<lambda>_. 9),
                        ((1, 2), (bdata ex_crashed (1, 2))(0 := 0))]
         \<and> disk s1 (1, 40) = (\<lambda>_. 7) \<and> disk s1 (1, 41) = (\<lambda>_. 9)
         \<and> (\<exists>s2. recover_from_log xv6_params s1 = Inr s2 \<and> disk s2 = disk s1
               \<and> refcnt s2 = refcnt s1)
         \<and> (\<exists>s3. initlog xv6_params 1 \<lparr>logstart = 2, nlog = 31\<rparr> (boot (disk s1)) = Inr s3
               \<and> disk s3 = disk s1))"
proof -
  have a: "hdr_fits xv6_params \<and> bdata ex_crashed (hdr_buf ex_crashed) 0 \<le> LOGSIZE xv6_params"
    using hdr_fits_xv6 by (simp add: ex_crashed_views xv6_params_def)
  have sz: "sizeof_logheader xv6_params < BSIZE xv6_params"
    by (simp add: xv6_params_def sizeof_logheader_def)
  note ap = homes_apart_ex_crashed
  have geo: "dev (logger ex_crashed) = 1" "start (logger ex_crashed) = 2"
    "size_log (logger ex_crashed) = 31"
    by (simp_all add: ex_crashed_def ex_log_def)
  have u: "[0..bdata ex_crashed (hdr_buf ex_crashed) 0 - 1] = [0, 1]"
    by (simp add: ex_crashed_views upto_rec1)
  from recovery_idempotent[of xv6_params ex_crashed] a sz obtain s1 where
    r1: "recover_from_log xv6_params ex_crashed = Inr s1"
    and p1: "refcnt s1 = refcnt ex_crashed" "n (lh (logger s1)) = 0"
      "disk s1 (hdr_buf ex_crashed) 0 = 0"
    and r2: "\<exists>s2. recover_from_log xv6_params s1 = Inr s2 \<and> disk s2 = disk s1
               \<and> refcnt s2 = refcnt s1"
    and r3: "\<exists>s3. initlog xv6_params (dev (logger ex_crashed))
                  \<lparr>logstart = start (logger ex_crashed), nlog = size_log (logger ex_crashed)\<rparr>
                  (boot (disk s1)) = Inr s3 \<and> disk s3 = disk s1"
    by blast
  from recovery_idempotent[of xv6_params ex_crashed] a ap obtain s1' where
    r1': "recover_from_log xv6_params ex_crashed = Inr s1'"
    and w1: "writes s1' = writes ex_crashed
                 @ map (\<lambda>i. (home_buf (after_read ex_crashed) i, bdata ex_crashed (slot_buf ex_crashed i)))
                     [0..bdata ex_crashed (hdr_buf ex_crashed) 0 - 1]
                 @ [(hdr_buf ex_crashed, (bdata ex_crashed (hdr_buf ex_crashed))(0 := 0))]"
    and d1: "disk s1' = replay (new_writes ex_crashed s1') (disk ex_crashed)"
    by blast
  from r1 r1' have eq: "s1' = s1" by simp
  have w: "writes s1 = [((1, 40), \<lambda>_. 7), ((1, 41), \<lambda>_. 9),
                        ((1, 2), (bdata ex_crashed (1, 2))(0 := 0))]"
    using w1 unfolding eq u by (simp add: ex_crashed_views)
  have nw: "new_writes ex_crashed s1 = [((1, 40), \<lambda>_. 7), ((1, 41), \<lambda>_. 9),
                        ((1, 2), (bdata ex_crashed (1, 2))(0 := 0))]"
    by (simp add: new_writes_def w ex_crashed_views)
  have d: "disk s1 (1, 40) = (\<lambda>_. 7)" "disk s1 (1, 41) = (\<lambda>_. 9)"
    using d1 unfolding eq nw by (simp_all add: replay_Cons replay_Nil)
  from a sz ap r1 p1 w d r2 r3 show ?thesis
    unfolding geo ex_crashed_views(1) by blast
qed

subsection \<open>Clearing the header\<close>

text \<open>
  Claim C10. Clearing the header, at the end of \<^verbatim>\<open>commit\<close> and at the end of
  \<^verbatim>\<open>recover_from_log\<close>, stores \<open>0\<close> in the count of the header block and leaves every other
  word of the block as it is: after a commit the block numbers of the installed
  transaction are still in the header block on disk. A restart on that disk reads the
  count \<open>0\<close>, copies no block number into memory, and writes nothing but the header block,
  with the contents it has.
\<close>

theorem header_clear_keeps_entries:
  "(hdr_fits p \<and> n (lh (logger s)) = 0
      \<longrightarrow> (\<exists>s'. write_head p s = Inr s'
             \<and> disk s' = (disk s)(hdr_buf s := (bdata s (hdr_buf s))(0 := 0))))
   \<and> (hdr_fits p \<and> bdata s (hdr_buf s) 0 \<le> LOGSIZE p \<and> homes_apart (logger (after_read s))
      \<longrightarrow> (\<exists>s'. recover_from_log p s = Inr s'
             \<and> disk s' (hdr_buf s) = (bdata s (hdr_buf s))(0 := 0)))
   \<and> (sizeof_logheader p < BSIZE p \<and> 0 < n (lh (logger s)) \<and> n (lh (logger s)) \<le> LOGSIZE p
        \<and> homes_apart (logger s)
      \<longrightarrow> (\<exists>s'. commit p s = Inr s'
             \<and> disk s' (hdr_buf s) 0 = 0
             \<and> (\<forall>i\<in>{0..<n (lh (logger s))}.
                   disk s' (hdr_buf s) (i + 1) = block (lh (logger s)) i)
             \<and> (\<exists>r. initlog p (dev (logger s))
                        \<lparr>logstart = start (logger s), nlog = size_log (logger s)\<rparr>
                        (boot (disk s')) = Inr r
                   \<and> n (lh (logger r)) = 0 \<and> block (lh (logger r)) = (\<lambda>_. 0)
                   \<and> writes r = [(hdr_buf s, disk s' (hdr_buf s))]
                   \<and> disk r = disk s')))"
proof (intro conjI impI)
  assume a: "hdr_fits p \<and> n (lh (logger s)) = 0"
  then have "n (lh (logger s)) \<le> LOGSIZE p" by (simp add: hdr_fits_def)
  from write_head_views[OF _ this] a hdr_image_zero[of "lh (logger s)"]
  show "\<exists>s'. write_head p s = Inr s'
             \<and> disk s' = (disk s)(hdr_buf s := (bdata s (hdr_buf s))(0 := 0))"
    by auto
next
  assume a: "hdr_fits p \<and> bdata s (hdr_buf s) 0 \<le> LOGSIZE p
     \<and> homes_apart (logger (after_read s))"
  from a recover_from_log_views[of p s] obtain s' where
    "recover_from_log p s = Inr s'"
    "disk s' = replay (install_writes (after_read s) 0
                     @ [(hdr_buf s, (bdata s (hdr_buf s))(0 := 0))]) (disk s)"
    by blast
  then show "\<exists>s'. recover_from_log p s = Inr s'
             \<and> disk s' (hdr_buf s) = (bdata s (hdr_buf s))(0 := 0)"
    by (simp add: replay_append replay_Cons replay_Nil)
next
  assume a: "sizeof_logheader p < BSIZE p \<and> 0 < n (lh (logger s))
     \<and> n (lh (logger s)) \<le> LOGSIZE p \<and> homes_apart (logger s)"
  then have hf: "hdr_fits p" by (simp add: hdr_fits_def)
  define H where "H = hdr_image (lh (logger s)) (bdata s (hdr_buf s))"
  from a hf commit_views[of p s] obtain s' where
    r: "commit p s = Inr s'" and d: "disk s' = replay (commit_writes s) (disk s)"
    by blast
  have dh: "disk s' (hdr_buf s) = H(0 := 0)"
    unfolding d H_def by (rule replay_commit_writes_hdr)
  have e: "\<forall>i\<in>{0..<n (lh (logger s))}. disk s' (hdr_buf s) (i + 1) = block (lh (logger s)) i"
    by (simp add: dh H_def hdr_image_def)
  define sb where "sb = \<lparr>logstart = start (logger s), nlog = size_log (logger s)\<rparr>"
  define s0 where "s0 = with_geometry (dev (logger s)) sb (boot (disk s'))"
  have h0: "hdr_buf s0 = hdr_buf s"
    by (simp add: s0_def with_geometry_views sb_def hdr_buf_def)
  have c0: "bdata s0 = disk s'" "disk s0 = disk s'" "writes s0 = []"
    "lh (logger s0) = \<lparr>n = 0, block = (\<lambda>_. 0)\<rparr>"
    by (simp_all add: s0_def with_geometry_views boot_views)
  have z: "bdata s0 (hdr_buf s0) 0 \<le> 0"
    by (simp add: h0 c0 dh)
  have "(disk s' (hdr_buf s))(0 := 0) = disk s' (hdr_buf s)"
    by (simp add: dh)
  then have same: "(disk s')(hdr_buf s := (disk s' (hdr_buf s))(0 := 0)) = disk s'"
    by simp
  from recover_from_log_empty[OF hf z] obtain r where
    rr: "recover_from_log p s0 = Inr r"
    and gr: "logger r = (logger s0)\<lparr>lh := (lh (logger s0))\<lparr>n := 0\<rparr>\<rparr>"
    and wr: "writes r = writes s0 @ [(hdr_buf s0, (bdata s0 (hdr_buf s0))(0 := 0))]"
    and dr: "disk r = (disk s0)(hdr_buf s0 := (bdata s0 (hdr_buf s0))(0 := 0))"
    by blast
  have i: "initlog p (dev (logger s)) sb (boot (disk s')) = Inr r"
    using a rr by (simp add: initlog_recover s0_def)
  have "n (lh (logger r)) = 0" "block (lh (logger r)) = (\<lambda>_. 0)"
    by (simp_all add: gr c0)
  moreover have "writes r = [(hdr_buf s, disk s' (hdr_buf s))]"
    unfolding wr h0 c0 by (simp add: dh)
  moreover have "disk r = disk s'"
    unfolding dr h0 c0 by (rule same)
  ultimately show "\<exists>s'. commit p s = Inr s'
             \<and> disk s' (hdr_buf s) 0 = 0
             \<and> (\<forall>i\<in>{0..<n (lh (logger s))}.
                   disk s' (hdr_buf s) (i + 1) = block (lh (logger s)) i)
             \<and> (\<exists>r. initlog p (dev (logger s))
                        \<lparr>logstart = start (logger s), nlog = size_log (logger s)\<rparr>
                        (boot (disk s')) = Inr r
                   \<and> n (lh (logger r)) = 0 \<and> block (lh (logger r)) = (\<lambda>_. 0)
                   \<and> writes r = [(hdr_buf s, disk s' (hdr_buf s))]
                   \<and> disk r = disk s')"
    using r e i dh unfolding sb_def by (intro exI[of _ s']) auto
qed

theorem header_clear_keeps_entries_witness:
  "hdr_fits xv6_params \<and> n (lh (logger ex_sys)) = 0
   \<and> (\<exists>s'. write_head xv6_params ex_sys = Inr s'
         \<and> disk s' = (disk ex_sys)(hdr_buf ex_sys := (bdata ex_sys (hdr_buf ex_sys))(0 := 0)))
   \<and> bdata ex_crashed (hdr_buf ex_crashed) 0 \<le> LOGSIZE xv6_params
   \<and> homes_apart (logger (after_read ex_crashed))
   \<and> (\<exists>s'. recover_from_log xv6_params ex_crashed = Inr s'
         \<and> disk s' (1, 2) 0 = 0 \<and> disk s' (1, 2) 1 = 40 \<and> disk s' (1, 2) 2 = 41)
   \<and> sizeof_logheader xv6_params < BSIZE xv6_params
   \<and> 0 < n (lh (logger ex_tx)) \<and> n (lh (logger ex_tx)) \<le> LOGSIZE xv6_params
   \<and> homes_apart (logger ex_tx)
   \<and> (\<exists>s'. commit xv6_params ex_tx = Inr s'
         \<and> disk s' (1, 2) 0 = 0 \<and> disk s' (1, 2) 1 = 40 \<and> disk s' (1, 2) 2 = 41
         \<and> (\<exists>r. initlog xv6_params 1 \<lparr>logstart = 2, nlog = 31\<rparr> (boot (disk s')) = Inr r
               \<and> n (lh (logger r)) = 0 \<and> block (lh (logger r)) = (\<lambda>_. 0)
               \<and> writes r = [((1, 2), disk s' (1, 2))] \<and> disk r = disk s'))"
proof -
  have a1: "hdr_fits xv6_params \<and> n (lh (logger ex_sys)) = 0"
    using hdr_fits_xv6 by (simp add: ex_sys_def ex_log_def)
  have a2: "hdr_fits xv6_params \<and> bdata ex_crashed (hdr_buf ex_crashed) 0 \<le> LOGSIZE xv6_params
     \<and> homes_apart (logger (after_read ex_crashed))"
    using hdr_fits_xv6 homes_apart_ex_crashed by (simp add: ex_crashed_views xv6_params_def)
  have a3: "sizeof_logheader xv6_params < BSIZE xv6_params
     \<and> 0 < n (lh (logger ex_tx)) \<and> n (lh (logger ex_tx)) \<le> LOGSIZE xv6_params
     \<and> homes_apart (logger ex_tx)"
    using homes_apart_ex_tx by (simp add: ex_tx_views xv6_params_def sizeof_logheader_def)
  have c1: "\<exists>s'. write_head xv6_params ex_sys = Inr s'
         \<and> disk s' = (disk ex_sys)(hdr_buf ex_sys := (bdata ex_sys (hdr_buf ex_sys))(0 := 0))"
    using header_clear_keeps_entries[of xv6_params ex_sys] a1 by blast
  from header_clear_keeps_entries[of xv6_params ex_crashed] a2 obtain s' where
    "recover_from_log xv6_params ex_crashed = Inr s'"
    "disk s' (hdr_buf ex_crashed) = (bdata ex_crashed (hdr_buf ex_crashed))(0 := 0)"
    by blast
  then have c2: "\<exists>s'. recover_from_log xv6_params ex_crashed = Inr s'
         \<and> disk s' (1, 2) 0 = 0 \<and> disk s' (1, 2) 1 = 40 \<and> disk s' (1, 2) 2 = 41"
    by (simp add: ex_crashed_views(1)) (simp add: ex_crashed_def boot_def bdata_def)
  from header_clear_keeps_entries[of xv6_params ex_tx] a3 obtain s' r where
    r: "commit xv6_params ex_tx = Inr s'" "disk s' (hdr_buf ex_tx) 0 = 0"
    and e: "\<forall>i\<in>{0..<n (lh (logger ex_tx))}.
                   disk s' (hdr_buf ex_tx) (i + 1) = block (lh (logger ex_tx)) i"
    and i: "initlog xv6_params (dev (logger ex_tx))
                        \<lparr>logstart = start (logger ex_tx), nlog = size_log (logger ex_tx)\<rparr>
                        (boot (disk s')) = Inr r"
      "n (lh (logger r)) = 0" "block (lh (logger r)) = (\<lambda>_. 0)"
      "writes r = [(hdr_buf ex_tx, disk s' (hdr_buf ex_tx))]" "disk r = disk s'"
    by blast
  from bspec[OF e, of 0] bspec[OF e, of 1]
  have "disk s' (hdr_buf ex_tx) (0 + 1) = block (lh (logger ex_tx)) 0"
    "disk s' (hdr_buf ex_tx) (1 + 1) = block (lh (logger ex_tx)) 1"
    by (simp_all add: ex_tx_views(1))
  then have e': "disk s' (1, 2) 1 = 40" "disk s' (1, 2) 2 = 41"
    by (simp_all add: ex_tx_views(2)) (simp_all add: ex_tx_def ex_log_def)
  have geo: "dev (logger ex_tx) = 1" "start (logger ex_tx) = 2" "size_log (logger ex_tx) = 31"
    by (simp_all add: ex_tx_def ex_log_def)
  from r i e' have c3: "\<exists>s'. commit xv6_params ex_tx = Inr s'
         \<and> disk s' (1, 2) 0 = 0 \<and> disk s' (1, 2) 1 = 40 \<and> disk s' (1, 2) 2 = 41
         \<and> (\<exists>r. initlog xv6_params 1 \<lparr>logstart = 2, nlog = 31\<rparr> (boot (disk s')) = Inr r
               \<and> n (lh (logger r)) = 0 \<and> block (lh (logger r)) = (\<lambda>_. 0)
               \<and> writes r = [((1, 2), disk s' (1, 2))] \<and> disk r = disk s')"
    unfolding geo ex_tx_views(2) by blast
  from a1 a2 a3 c1 c2 c3 show ?thesis by blast
qed

subsection \<open>Crash atomicity\<close>

lemma restart_recover:
  "sizeof_logheader p < BSIZE p \<Longrightarrow>
   restart p s d = recover_from_log p
     (with_geometry (dev (logger s)) \<lparr>logstart = start (logger s), nlog = size_log (logger s)\<rparr>
        (boot d))"
  by (simp add: restart_def initlog_recover)

lemma restart_cleared:
  assumes "sizeof_logheader p < BSIZE p" "0 \<le> LOGSIZE p" "d (hdr_buf s) 0 = 0"
  shows "\<exists>r. restart p s d = Inr r \<and> disk r = d"
proof -
  define s0 where "s0 = with_geometry (dev (logger s))
     \<lparr>logstart = start (logger s), nlog = size_log (logger s)\<rparr> (boot d)"
  have hf: "hdr_fits p" using assms(1,2) by (simp add: hdr_fits_def)
  have h0: "hdr_buf s0 = hdr_buf s"
    by (simp add: s0_def with_geometry_views hdr_buf_def)
  have c0: "bdata s0 = d" "disk s0 = d"
    by (simp_all add: s0_def with_geometry_views boot_views)
  have z0: "bdata s0 (hdr_buf s0) 0 \<le> 0"
    by (simp add: h0 c0 assms(3))
  from recover_from_log_empty[OF hf z0] obtain r where
    r: "recover_from_log p s0 = Inr r"
    and dr: "disk r = (disk s0)(hdr_buf s0 := (bdata s0 (hdr_buf s0))(0 := 0))"
    by blast
  have "(d (hdr_buf s))(0 := 0) = d (hdr_buf s)"
    using assms(3) by (simp add: fun_upd_idem)
  then have "disk r = d"
    unfolding dr h0 c0 by simp
  with r show ?thesis
    by (simp add: restart_recover[OF assms(1)] s0_def)
qed

lemma restart_committed:
  assumes sz: "sizeof_logheader p < BSIZE p"
    and nn: "0 < n (lh (logger s))" "n (lh (logger s)) \<le> LOGSIZE p"
    and ap: "homes_apart (logger s)"
    and dh: "d (hdr_buf s) = hdr_image (lh (logger s)) old"
    and ds: "\<forall>i\<in>{0..<n (lh (logger s))}. d (slot_buf s i) = bdata s (home_buf s i)"
  shows "\<exists>r. restart p s d = Inr r
     \<and> (\<forall>i\<in>{0..<n (lh (logger s))}. disk r (home_buf s i) = bdata s (home_buf s i))"
proof -
  define s0 where "s0 = with_geometry (dev (logger s))
     \<lparr>logstart = start (logger s), nlog = size_log (logger s)\<rparr> (boot d)"
  define sr where "sr = after_read s0"
  have hf: "hdr_fits p" using sz nn by (simp add: hdr_fits_def)
  have h0: "hdr_buf s0 = hdr_buf s"
    by (simp add: s0_def with_geometry_views hdr_buf_def)
  have c0: "bdata s0 = d" "disk s0 = d"
    by (simp_all add: s0_def with_geometry_views boot_views)
  have cnt: "d (hdr_buf s) 0 = n (lh (logger s))"
    by (simp add: dh hdr_image_def)
  have ent: "0 \<le> i \<Longrightarrow> i < n (lh (logger s)) \<Longrightarrow> d (hdr_buf s) (i + 1) = block (lh (logger s)) i" for i
    by (simp add: dh hdr_image_def)
  have le: "bdata s0 (hdr_buf s0) 0 \<le> LOGSIZE p"
    using nn by (simp add: h0 c0 cnt)
  have gr: "start (logger sr) = start (logger s)" "dev (logger sr) = dev (logger s)"
    "n (lh (logger sr)) = n (lh (logger s))"
    by (simp_all add: sr_def after_read_def hdr_read_def h0 c0 cnt)
      (simp_all add: s0_def with_geometry_views)
  have br: "0 \<le> i \<Longrightarrow> i < n (lh (logger s)) \<Longrightarrow> block (lh (logger sr)) i = block (lh (logger s)) i" for i
    by (simp add: sr_def after_read_def hdr_read_def h0 c0 cnt ent)
  have apr: "homes_apart (logger sr)"
    using ap unfolding homes_apart_def gr by (simp add: br)
  have hb: "0 \<le> i \<Longrightarrow> i < n (lh (logger s)) \<Longrightarrow> home_buf sr i = home_buf s i" for i
    by (simp add: home_buf_def gr br)
  have sl: "slot_buf sr = slot_buf s"
    by (intro ext) (simp add: slot_buf_def gr)
  have cr: "bdata sr = d"
    by (simp add: sr_def after_read_def bdata_simps c0)
  have iw: "install_writes sr 0 = home_writes s"
    unfolding install_writes_def home_writes_def gr sl cr
  proof (rule map_cong[OF refl])
    fix i assume "i \<in> set [0..n (lh (logger s)) - 1]"
    then have i: "0 \<le> i" "i < n (lh (logger s))" by auto
    with ds have "d (slot_buf s i) = bdata s (home_buf s i)" by simp
    with hb[OF i] show "(home_buf sr i, d (slot_buf s i)) = (home_buf s i, bdata s (home_buf s i))"
      by simp
  qed
  from recover_from_log_views[OF hf le apr[unfolded sr_def]] obtain r where
    r: "recover_from_log p s0 = Inr r"
    and dr: "disk r = replay (install_writes sr 0 @ [(hdr_buf s0, (bdata s0 (hdr_buf s0))(0 := 0))])
                (disk s0)"
    unfolding sr_def by blast
  have "\<forall>i\<in>{0..<n (lh (logger s))}. disk r (home_buf s i) = bdata s (home_buf s i)"
  proof
    fix i assume "i \<in> {0..<n (lh (logger s))}"
    then have i: "0 \<le> i" "i < n (lh (logger s))" by auto
    then have "home_buf s i \<in> home_buf s ` {0..n (lh (logger s)) - 1}" by simp
    then show "disk r (home_buf s i) = bdata s (home_buf s i)"
      using home_hdr_neq[OF ap i]
      by (simp add: dr iw h0 replay_append replay_Cons replay_Nil replay_home_writes)
  qed
  with r show ?thesis
    by (simp add: restart_recover[OF sz] s0_def)
qed

lemma length_log_writes: "length (log_writes s 0) = nat (n (lh (logger s)))"
  by (simp add: log_writes_def)

lemma length_home_writes: "length (home_writes s) = nat (n (lh (logger s)))"
  by (simp add: home_writes_def)

lemma take_commit_writes_early:
  "k \<le> nat (n (lh (logger s))) \<Longrightarrow> take k (commit_writes s) = take k (log_writes s 0)"
  by (simp add: commit_writes_def length_log_writes)

lemma take_commit_writes_late:
  assumes "nat (n (lh (logger s))) < k"
  shows "take k (commit_writes s) =
     log_writes s 0 @ [(hdr_buf s, hdr_image (lh (logger s)) (bdata s (hdr_buf s)))]
     @ take (k - nat (n (lh (logger s))) - 1)
         (home_writes s
          @ [(hdr_buf s, (hdr_image (lh (logger s)) (bdata s (hdr_buf s)))(0 := 0))])"
proof -
  from assms obtain j where k: "k = nat (n (lh (logger s))) + Suc j"
    using less_iff_Suc_add by auto
  show ?thesis
    by (simp add: commit_writes_def length_log_writes k)
qed

lemma replay_take_notin:
  "b \<notin> fst ` set ws \<Longrightarrow> replay (take k ws) d b = d b"
proof (rule replay_notin)
  assume "b \<notin> fst ` set ws"
  moreover have "set (take k ws) \<subseteq> set ws" by (rule set_take_subset)
  ultimately show "b \<notin> fst ` set (take k ws)" by blast
qed

text \<open>
  Claim C1. Take a transaction of \<open>n > 0\<close> entries whose home blocks lie outside the log,
  and let the power fail after \<open>k\<close> of the disk writes of its \<^verbatim>\<open>commit\<close> are complete. The
  write of the header is number \<open>n + 1\<close>. When \<open>k \<le> n\<close> every home block on disk is what
  it was before the commit, and stays so through the recovery of the restart (given a
  clear header on disk before the transaction). When \<open>k > n\<close>, at whatever point of the
  installation or after it, the recovery of the restart returns and every home block of
  the transaction holds on disk the contents it had in the cache when the commit began.
\<close>

theorem crash_atomicity:
  "sizeof_logheader p < BSIZE p \<and> 0 < n (lh (logger s)) \<and> n (lh (logger s)) \<le> LOGSIZE p
     \<and> homes_apart (logger s)
   \<longrightarrow> (\<exists>s'. commit p s = Inr s'
          \<and> length (new_writes s s') = 2 * nat (n (lh (logger s))) + 2
          \<and> (\<forall>k. k \<le> nat (n (lh (logger s))) \<longrightarrow>
                (\<forall>i\<in>{0..<n (lh (logger s))}.
                    crash_disk s s' k (home_buf s i) = disk s (home_buf s i))
                \<and> (disk s (hdr_buf s) 0 = 0 \<longrightarrow>
                     (\<exists>r. restart p s (crash_disk s s' k) = Inr r
                        \<and> (\<forall>i\<in>{0..<n (lh (logger s))}.
                              disk r (home_buf s i) = disk s (home_buf s i)))))
          \<and> (\<forall>k. nat (n (lh (logger s))) < k \<longrightarrow>
                (\<exists>r. restart p s (crash_disk s s' k) = Inr r
                   \<and> (\<forall>i\<in>{0..<n (lh (logger s))}.
                         disk r (home_buf s i) = bdata s (home_buf s i)))))"
proof
  assume a: "sizeof_logheader p < BSIZE p \<and> 0 < n (lh (logger s))
     \<and> n (lh (logger s)) \<le> LOGSIZE p \<and> homes_apart (logger s)"
  then have sz: "sizeof_logheader p < BSIZE p" and nn: "0 < n (lh (logger s))"
    "n (lh (logger s)) \<le> LOGSIZE p" and ap: "homes_apart (logger s)"
    by simp_all
  have hf: "hdr_fits p" and lp: "0 \<le> LOGSIZE p" using sz nn by (simp_all add: hdr_fits_def)
  define H where "H = hdr_image (lh (logger s)) (bdata s (hdr_buf s))"
  from commit_views[OF hf nn ap] obtain s' where
    r: "commit p s = Inr s'" and w: "writes s' = writes s @ commit_writes s"
    by blast
  have nw: "new_writes s s' = commit_writes s"
    by (simp add: new_writes_def w)
  have cd: "crash_disk s s' k = replay (take k (commit_writes s)) (disk s)" for k
    by (simp add: crash_disk_def nw)
  have early: "(\<forall>i\<in>{0..<n (lh (logger s))}.
                    crash_disk s s' k (home_buf s i) = disk s (home_buf s i))
                \<and> (disk s (hdr_buf s) 0 = 0 \<longrightarrow>
                     (\<exists>r. restart p s (crash_disk s s' k) = Inr r
                        \<and> (\<forall>i\<in>{0..<n (lh (logger s))}.
                              disk r (home_buf s i) = disk s (home_buf s i))))"
    if k: "k \<le> nat (n (lh (logger s)))" for k
  proof -
    have cdk: "crash_disk s s' k = replay (take k (log_writes s 0)) (disk s)"
      by (simp add: cd take_commit_writes_early[OF k])
    have homes: "\<forall>i\<in>{0..<n (lh (logger s))}.
                    crash_disk s s' k (home_buf s i) = disk s (home_buf s i)"
      unfolding cdk using replay_take_notin[OF home_notin_log_writes[OF ap]] by simp
    have hdr: "crash_disk s s' k (hdr_buf s) = disk s (hdr_buf s)"
      unfolding cdk by (rule replay_take_notin[OF hdr_notin_log_writes]) simp
    have "\<exists>r. restart p s (crash_disk s s' k) = Inr r
                        \<and> (\<forall>i\<in>{0..<n (lh (logger s))}.
                              disk r (home_buf s i) = disk s (home_buf s i))"
      if z: "disk s (hdr_buf s) 0 = 0"
    proof -
      from restart_cleared[OF sz lp, of "crash_disk s s' k" s] hdr z obtain r where
        "restart p s (crash_disk s s' k) = Inr r" "disk r = crash_disk s s' k"
        by auto
      with homes show ?thesis by simp
    qed
    with homes show ?thesis by blast
  qed
  have late: "\<exists>r. restart p s (crash_disk s s' k) = Inr r
                   \<and> (\<forall>i\<in>{0..<n (lh (logger s))}.
                         disk r (home_buf s i) = bdata s (home_buf s i))"
    if k: "nat (n (lh (logger s))) < k" for k
  proof (cases "k - nat (n (lh (logger s))) - 1 \<le> nat (n (lh (logger s)))")
    case True
    define j where "j = k - nat (n (lh (logger s))) - 1"
    have tk: "take k (commit_writes s) = log_writes s 0 @ [(hdr_buf s, H)] @ take j (home_writes s)"
      using True by (simp add: take_commit_writes_late[OF k] H_def j_def length_home_writes)
    have cdk: "crash_disk s s' k
       = replay (take j (home_writes s)) ((replay (log_writes s 0) (disk s))(hdr_buf s := H))"
      by (simp add: cd tk replay_append replay_Cons replay_Nil)
    have dh: "crash_disk s s' k (hdr_buf s) = hdr_image (lh (logger s)) (bdata s (hdr_buf s))"
      unfolding cdk using replay_take_notin[OF hdr_notin_home_writes[OF ap]]
      by (simp add: H_def)
    have ds: "\<forall>i\<in>{0..<n (lh (logger s))}.
        crash_disk s s' k (slot_buf s i) = bdata s (home_buf s i)"
    proof
      fix i assume "i \<in> {0..<n (lh (logger s))}"
      then have i: "0 \<le> i" "i < n (lh (logger s))" by auto
      show "crash_disk s s' k (slot_buf s i) = bdata s (home_buf s i)"
        unfolding cdk
        using replay_take_notin[OF slot_notin_home_writes[OF ap i]]
          hdr_not_slot[OF i(1), of s] log_writes_slot[OF i]
        by simp
    qed
    from restart_committed[OF sz nn ap dh ds] show ?thesis .
  next
    case False
    then have "length (commit_writes s) \<le> k"
      by (simp add: length_commit_writes)
    then have cdk: "crash_disk s s' k = replay (commit_writes s) (disk s)"
      by (simp add: cd)
    have "crash_disk s s' k (hdr_buf s) 0 = 0"
      by (simp add: cdk replay_commit_writes_hdr)
    from restart_cleared[of p "crash_disk s s' k" s, OF sz lp this] obtain r where
      rr: "restart p s (crash_disk s s' k) = Inr r" "disk r = crash_disk s s' k"
      by blast
    have "\<forall>i\<in>{0..<n (lh (logger s))}. disk r (home_buf s i) = bdata s (home_buf s i)"
      unfolding rr(2) cdk using replay_commit_writes_home[OF ap] by simp
    with rr show ?thesis by blast
  qed
  have len: "length (new_writes s s') = 2 * nat (n (lh (logger s))) + 2"
    by (simp add: nw length_commit_writes)
  from r len early late
  show "\<exists>s'. commit p s = Inr s'
          \<and> length (new_writes s s') = 2 * nat (n (lh (logger s))) + 2
          \<and> (\<forall>k. k \<le> nat (n (lh (logger s))) \<longrightarrow>
                (\<forall>i\<in>{0..<n (lh (logger s))}.
                    crash_disk s s' k (home_buf s i) = disk s (home_buf s i))
                \<and> (disk s (hdr_buf s) 0 = 0 \<longrightarrow>
                     (\<exists>r. restart p s (crash_disk s s' k) = Inr r
                        \<and> (\<forall>i\<in>{0..<n (lh (logger s))}.
                              disk r (home_buf s i) = disk s (home_buf s i)))))
          \<and> (\<forall>k. nat (n (lh (logger s))) < k \<longrightarrow>
                (\<exists>r. restart p s (crash_disk s s' k) = Inr r
                   \<and> (\<forall>i\<in>{0..<n (lh (logger s))}.
                         disk r (home_buf s i) = bdata s (home_buf s i))))"
    by (intro exI[of _ s']) blast
qed

theorem crash_atomicity_witness:
  "sizeof_logheader xv6_params < BSIZE xv6_params
   \<and> 0 < n (lh (logger ex_tx)) \<and> n (lh (logger ex_tx)) \<le> LOGSIZE xv6_params
   \<and> homes_apart (logger ex_tx) \<and> disk ex_tx (hdr_buf ex_tx) 0 = 0
   \<and> (\<exists>s'. commit xv6_params ex_tx = Inr s' \<and> length (new_writes ex_tx s') = 6
         \<and> crash_disk ex_tx s' 2 (1, 40) = (\<lambda>_. 0) \<and> crash_disk ex_tx s' 2 (1, 41) = (\<lambda>_. 0)
         \<and> (\<exists>r. restart xv6_params ex_tx (crash_disk ex_tx s' 2) = Inr r
               \<and> disk r (1, 40) = (\<lambda>_. 0) \<and> disk r (1, 41) = (\<lambda>_. 0))
         \<and> (\<exists>r. restart xv6_params ex_tx (crash_disk ex_tx s' 3) = Inr r
               \<and> disk r (1, 40) = (\<lambda>_. 7) \<and> disk r (1, 41) = (\<lambda>_. 9))
         \<and> (\<exists>r. restart xv6_params ex_tx (crash_disk ex_tx s' 4) = Inr r
               \<and> disk r (1, 40) = (\<lambda>_. 7) \<and> disk r (1, 41) = (\<lambda>_. 9)))"
proof -
  have a: "sizeof_logheader xv6_params < BSIZE xv6_params
     \<and> 0 < n (lh (logger ex_tx)) \<and> n (lh (logger ex_tx)) \<le> LOGSIZE xv6_params
     \<and> homes_apart (logger ex_tx)"
    using homes_apart_ex_tx by (simp add: ex_tx_views xv6_params_def sizeof_logheader_def)
  have z: "disk ex_tx (hdr_buf ex_tx) 0 = 0"
    by (simp add: ex_tx_def ex_sys_def boot_def)
  have dz: "disk ex_tx (1, 40) = (\<lambda>_. 0)" "disk ex_tx (1, 41) = (\<lambda>_. 0)"
    by (simp_all add: ex_tx_def ex_sys_def boot_def)
  have nn: "nat (n (lh (logger ex_tx))) = 2" by (simp add: ex_tx_views)
  from crash_atomicity[of xv6_params ex_tx] a obtain s' where
    r: "commit xv6_params ex_tx = Inr s'"
    and len: "length (new_writes ex_tx s') = 2 * nat (n (lh (logger ex_tx))) + 2"
    and early: "\<forall>k. k \<le> nat (n (lh (logger ex_tx))) \<longrightarrow>
                (\<forall>i\<in>{0..<n (lh (logger ex_tx))}.
                    crash_disk ex_tx s' k (home_buf ex_tx i) = disk ex_tx (home_buf ex_tx i))
                \<and> (disk ex_tx (hdr_buf ex_tx) 0 = 0 \<longrightarrow>
                     (\<exists>r. restart xv6_params ex_tx (crash_disk ex_tx s' k) = Inr r
                        \<and> (\<forall>i\<in>{0..<n (lh (logger ex_tx))}.
                              disk r (home_buf ex_tx i) = disk ex_tx (home_buf ex_tx i))))"
    and late: "\<forall>k. nat (n (lh (logger ex_tx))) < k \<longrightarrow>
                (\<exists>r. restart xv6_params ex_tx (crash_disk ex_tx s' k) = Inr r
                   \<and> (\<forall>i\<in>{0..<n (lh (logger ex_tx))}.
                         disk r (home_buf ex_tx i) = bdata ex_tx (home_buf ex_tx i)))"
    by blast
  have in0: "(0::int) \<in> {0..<n (lh (logger ex_tx))}" and in1: "(1::int) \<in> {0..<n (lh (logger ex_tx))}"
    by (simp_all add: ex_tx_views)
  from early[rule_format, of 2] nn z
  have e1: "\<forall>i\<in>{0..<n (lh (logger ex_tx))}.
                    crash_disk ex_tx s' 2 (home_buf ex_tx i) = disk ex_tx (home_buf ex_tx i)"
    and e2: "\<exists>r. restart xv6_params ex_tx (crash_disk ex_tx s' 2) = Inr r
                        \<and> (\<forall>i\<in>{0..<n (lh (logger ex_tx))}.
                              disk r (home_buf ex_tx i) = disk ex_tx (home_buf ex_tx i))"
    by simp_all
  from bspec[OF e1 in0] bspec[OF e1 in1]
  have c1: "crash_disk ex_tx s' 2 (1, 40) = (\<lambda>_. 0)" "crash_disk ex_tx s' 2 (1, 41) = (\<lambda>_. 0)"
    by (simp_all add: ex_tx_views dz)
  from e2 obtain r2 where "restart xv6_params ex_tx (crash_disk ex_tx s' 2) = Inr r2"
    and h2: "\<forall>i\<in>{0..<n (lh (logger ex_tx))}.
                              disk r2 (home_buf ex_tx i) = disk ex_tx (home_buf ex_tx i)"
    by blast
  with bspec[OF h2 in0] bspec[OF h2 in1]
  have c2: "\<exists>r. restart xv6_params ex_tx (crash_disk ex_tx s' 2) = Inr r
               \<and> disk r (1, 40) = (\<lambda>_. 0) \<and> disk r (1, 41) = (\<lambda>_. 0)"
    by (simp add: ex_tx_views dz)
  have c3: "\<exists>r. restart xv6_params ex_tx (crash_disk ex_tx s' k) = Inr r
               \<and> disk r (1, 40) = (\<lambda>_. 7) \<and> disk r (1, 41) = (\<lambda>_. 9)" if "2 < k" for k
  proof -
    from late[rule_format, of k] nn that obtain r where
      "restart xv6_params ex_tx (crash_disk ex_tx s' k) = Inr r"
      and h: "\<forall>i\<in>{0..<n (lh (logger ex_tx))}.
                         disk r (home_buf ex_tx i) = bdata ex_tx (home_buf ex_tx i)"
      by auto
    with bspec[OF h in0] bspec[OF h in1] show ?thesis
      by (simp add: ex_tx_views)
  qed
  from len nn have len': "length (new_writes ex_tx s') = 6" by simp
  from a z r len' c1 c2 c3[of 3] c3[of 4] show ?thesis by simp
qed

subsection \<open>The capacity of the header\<close>

lemma write_head_frame: "write_head p s = Inr s' \<Longrightarrow> logger s' = logger s"
  by (auto simp: write_head_def Let_def bread_def bwrite_def brelse_def set_word_def
      split: if_splits sum.splits dest!: write_head_loop_frame)

lemma read_head_frame:
  "read_head p s = Inr s' \<Longrightarrow> size_log (logger s') = size_log (logger s)"
  by (auto simp: read_head_def Let_def bread_def brelse_def set_n_def
      split: if_splits sum.splits dest!: read_head_loop_frame)

lemma recover_from_log_frame:
  assumes "recover_from_log p s = Inr s'"
  shows "n (lh (logger s')) = 0 \<and> size_log (logger s') = size_log (logger s)"
proof -
  from assms obtain s1 s2 where r1: "read_head p s = Inr s1"
    and r2: "install_trans_loop p 1 0 s1 = Inr s2" and r3: "write_head p (set_n 0 s2) = Inr s'"
    by (auto simp: recover_from_log_def install_trans_def split: sum.splits)
  from read_head_frame[OF r1] install_trans_loop_frame[OF r2] write_head_frame[OF r3]
  show ?thesis by (simp add: set_n_def)
qed

lemma commit_frame:
  assumes "commit p s = Inr s'"
  shows "size_log (logger s') = size_log (logger s)
    \<and> (n (lh (logger s')) = 0 \<or> n (lh (logger s')) = n (lh (logger s)))"
proof (cases "0 < n (lh (logger s))")
  case False
  with assms show ?thesis by (simp add: commit_def)
next
  case True
  with assms obtain s1 s2 s3 where r1: "write_log_loop p 0 s = Inr s1"
    and r2: "write_head p s1 = Inr s2" and r3: "install_trans_loop p 0 0 s2 = Inr s3"
    and r4: "write_head p (set_n 0 s3) = Inr s'"
    by (auto simp: commit_def write_log_def install_trans_def split: sum.splits)
  from write_log_loop_frame[OF r1] write_head_frame[OF r2] install_trans_loop_frame[OF r3]
    write_head_frame[OF r4]
  show ?thesis by (simp add: set_n_def)
qed

lemma end_op_frame:
  assumes "end_op p s = Inr s'"
  shows "size_log (logger s') = size_log (logger s)
    \<and> (n (lh (logger s')) = 0 \<or> n (lh (logger s')) = n (lh (logger s)))"
proof -
  define s2 where "s2 = set_outstanding (outstanding (logger (acquire s)) - 1) (acquire s)"
  have g2: "lh (logger s2) = lh (logger s)" "size_log (logger s2) = size_log (logger s)"
    by (simp_all add: s2_def set_outstanding_def acquire_def)
  show ?thesis
  proof (cases "outstanding (logger s2) = 0")
    case False
    with assms have "s' = release (wakeup s2)"
      by (simp add: end_op_def Let_def s2_def[symmetric] split: if_splits)
    then show ?thesis
      by (simp add: g2 release_def wakeup_def)
  next
    case True
    with assms obtain s3 where
      c: "commit p (release (set_committing 1 s2)) = Inr s3"
      and s': "s' = release (wakeup (set_committing 0 (acquire s3)))"
      by (auto simp: end_op_def Let_def s2_def[symmetric] split: if_splits sum.splits)
    from commit_frame[OF c] show ?thesis
      by (simp add: s' g2 acquire_def release_def wakeup_def set_committing_def)
  qed
qed

lemma log_write_frame:
  assumes "log_write p b s = Inr s'" "0 \<le> n (lh (logger s))"
  shows "size_log (logger s') = size_log (logger s)
    \<and> n (lh (logger s)) \<le> n (lh (logger s')) \<and> n (lh (logger s')) \<le> n (lh (logger s)) + 1
    \<and> n (lh (logger s)) < LOGSIZE p \<and> n (lh (logger s)) < size_log (logger s) - 1"
  using assms
  by (auto simp: log_write_def Let_def acquire_def release_def set_block_def set_n_def bpin_def
      split: if_splits sum.splits)

lemma begin_op_frame:
  assumes "begin_op p s later = Some s'"
  shows "\<exists>t\<in>set (s # later). lh (logger s') = lh (logger t)
     \<and> size_log (logger s') = size_log (logger t)"
proof -
  from assms have "\<exists>t\<in>set (acquire s # map acquire later). begin_op_test p t = Some s'"
    unfolding begin_op_def by (rule begin_op_loop_admits)
  then obtain t where t: "t \<in> set (s # later)" "begin_op_test p (acquire t) = Some s'"
    by auto
  from t(2) have "lh (logger s') = lh (logger t) \<and> size_log (logger s') = size_log (logger t)"
    by (auto simp: begin_op_test_Some acquire_def release_def set_outstanding_def)
  with t(1) show ?thesis by blast
qed

lemma initlog_frame:
  assumes "initlog p dv sb s0 = Inr s"
  shows "n (lh (logger s)) = 0 \<and> size_log (logger s) = nlog sb"
proof -
  from assms have "recover_from_log p (with_geometry dv sb s0) = Inr s"
    by (simp add: initlog_def with_geometry_def Let_def split: if_splits)
  from recover_from_log_frame[OF this] show ?thesis
    by (simp add: with_geometry_views)
qed

lemma reachable_capacity_ok:
  assumes "0 \<le> LOGSIZE p" "reachable p s"
  shows "capacity_ok p (logger s)"
  using assms(2)
proof (induct rule: reachable.induct)
  case (initialize sb dv s0 s)
  with initlog_frame[OF initialize(2)] assms(1) show ?case
    by (simp add: capacity_ok_def)
next
  case (enter s later s')
  from begin_op_frame[OF enter(4)] obtain t where "t \<in> set (s # later)"
    and e: "lh (logger s') = lh (logger t)" "size_log (logger s') = size_log (logger t)"
    by blast
  with enter(2,3) have "capacity_ok p (logger t)" by auto
  then show ?case by (simp add: capacity_ok_def e)
next
  case (record_block s b s')
  then have nn: "0 \<le> n (lh (logger s))" by (simp add: capacity_ok_def)
  from log_write_frame[OF record_block(3) nn] nn show ?case
    by (simp add: capacity_ok_def)
next
  case (exit s s')
  from end_op_frame[OF exit(3)] exit(2) show ?case
    by (auto simp: capacity_ok_def)
next
  case (commit_step s s')
  from commit_frame[OF commit_step(3)] commit_step(2) show ?case
    by (auto simp: capacity_ok_def)
next
  case (recover s s')
  from recover_from_log_frame[OF recover(3)] recover(2) show ?case
    by (auto simp: capacity_ok_def)
next
  case (cache_activity s s')
  then show ?case by simp
qed

text \<open>
  Claim C4. The reachable states are those that \<^verbatim>\<open>initlog\<close> returns on a superblock whose
  log region has at least its header block (\<open>nlog \<ge> 1\<close>), and those that \<^verbatim>\<open>begin_op\<close>,
  \<^verbatim>\<open>log_write\<close>, \<^verbatim>\<open>end_op\<close>, \<^verbatim>\<open>commit\<close> and \<^verbatim>\<open>recover_from_log\<close> return from a reachable
  state, whatever the rest of the kernel does to the buffer cache in between; a step that
  panics returns nothing. In every reachable state
  \<open>0 \<le> n \<le> LOGSIZE\<close> and \<open>n \<le> size - 1\<close>.
\<close>

theorem capacity_invariant:
  "0 \<le> LOGSIZE p \<Longrightarrow> reachable p s \<Longrightarrow>
   0 \<le> n (lh (logger s)) \<and> n (lh (logger s)) \<le> LOGSIZE p
   \<and> n (lh (logger s)) \<le> size_log (logger s) - 1"
  using reachable_capacity_ok[of p s] by (simp add: capacity_ok_def)

lemma in_header_empty: "n (lh l) \<le> 0 \<Longrightarrow> \<not> in_header l bno"
  by (simp add: in_header_def)

theorem capacity_invariant_witness:
  "0 \<le> LOGSIZE xv6_params
   \<and> (\<exists>s. reachable xv6_params s \<and> n (lh (logger s)) = 1 \<and> size_log (logger s) = 31
         \<and> 0 \<le> n (lh (logger s)) \<and> n (lh (logger s)) \<le> LOGSIZE xv6_params
         \<and> n (lh (logger s)) \<le> size_log (logger s) - 1)"
proof -
  define sb where "sb = \<lparr>logstart = 2, nlog = 31\<rparr>"
  define s0 where "s0 = with_geometry 1 sb (boot (\<lambda>b w. 0))"
  have lp: "0 \<le> LOGSIZE xv6_params" by (simp add: xv6_params_def)
  have sz: "sizeof_logheader xv6_params < BSIZE xv6_params"
    by (simp add: xv6_params_def sizeof_logheader_def)
  have "bdata s0 (hdr_buf s0) 0 \<le> LOGSIZE xv6_params"
    by (simp add: s0_def with_geometry_views boot_views xv6_params_def)
  from recover_from_log_returns[OF hdr_fits_xv6 this] obtain s1 where
    r1: "recover_from_log xv6_params s0 = Inr s1"
    and g1: "logger s1 = (logger s0)\<lparr>lh := (hdr_read (bdata s0 (hdr_buf s0)) (lh (logger s0)))\<lparr>n := 0\<rparr>\<rparr>"
    by blast
  have i1: "initlog xv6_params 1 sb (boot (\<lambda>b w. 0)) = Inr s1"
    using r1 by (simp add: initlog_recover[OF sz] s0_def)
  have reach1: "reachable xv6_params s1"
    by (rule reachable.initialize[OF _ i1]) (simp add: sb_def)
  have v1: "n (lh (logger s1)) = 0" "size_log (logger s1) = 31" "outstanding (logger s1) = 0"
    "committing (logger s1) = 0"
    by (simp_all add: g1 s0_def with_geometry_views boot_views sb_def)
  define s2 where "s2 = release (set_outstanding (outstanding (logger (acquire s1)) + 1) (acquire s1))"
  have "begin_op_test xv6_params (acquire s1) = Some s2"
    by (simp add: begin_op_test_Some s2_def) (simp add: acquire_def v1 xv6_params_def)
  then have b2: "begin_op xv6_params s1 [] = Some s2"
    by (simp add: begin_op_def)
  have reach2: "reachable xv6_params s2"
    by (rule reachable.enter[OF reach1 _ b2]) simp
  have v2: "n (lh (logger s2)) = 0" "size_log (logger s2) = 31" "outstanding (logger s2) = 1"
    by (simp_all add: s2_def release_def set_outstanding_def acquire_def v1)
  define s3 where "s3 = release (set_n (n (lh (logger s2)) + 1)
        (bpin (1, 40) (set_block (n (lh (logger s2))) (blockno (1, 40)) s2)))"
  have w3: "log_write xv6_params (1, 40) s2 = Inr s3"
    unfolding s3_def
    by (rule log_write_miss) (simp_all add: v2 xv6_params_def in_header_empty)
  have reach3: "reachable xv6_params s3"
    by (rule reachable.record_block[OF reach2 w3])
  have v3: "n (lh (logger s3)) = 1" "size_log (logger s3) = 31"
    by (simp_all add: s3_def release_def set_n_def bpin_def set_block_def v2)
  from capacity_invariant[OF lp reach3] lp reach3 v3 show ?thesis by blast
qed

subsection \<open>Absorption\<close>

lemma in_header_entries: "in_header l bno \<longleftrightarrow> bno \<in> set (entries l)"
  by (auto simp: in_header_def entries_def)

lemma log_write_Inr:
  assumes "log_write p b s = Inr s'"
  shows "n (lh (logger s)) < LOGSIZE p \<and> n (lh (logger s)) < size_log (logger s) - 1
    \<and> 1 \<le> outstanding (logger s)"
  using assms by (auto simp: log_write_def Let_def acquire_def split: if_splits)

lemma entries_append:
  assumes "0 \<le> n (lh l)"
  shows "entries (l\<lparr>lh := (lh l)\<lparr>block := (block (lh l))(n (lh l) := v), n := n (lh l) + 1\<rparr>\<rparr>)
     = entries l @ [v]"
proof -
  have "[0..n (lh l)] = [0..n (lh l) - 1] @ [n (lh l)]"
    using assms upto_rec2[of 0 "n (lh l)"] by simp
  then show ?thesis
    by (simp add: entries_def)
qed

lemma log_write_step:
  assumes "log_write p b s = Inr s'" "0 \<le> n (lh (logger s))"
  shows "(in_header (logger s) (blockno b) \<longrightarrow>
            logger s' = logger s \<and> refcnt s' = refcnt s \<and> bdata s' = bdata s)
    \<and> (\<not> in_header (logger s) (blockno b) \<longrightarrow>
            entries (logger s') = entries (logger s) @ [blockno b]
          \<and> n (lh (logger s')) = n (lh (logger s)) + 1
          \<and> block (lh (logger s')) = (block (lh (logger s)))(n (lh (logger s)) := blockno b)
          \<and> refcnt s' = (refcnt s)(b := refcnt s b + 1) \<and> bdata s' = bdata s)"
proof (cases "in_header (logger s) (blockno b)")
  case True
  from log_write_Inr[OF assms(1)] log_write_hit[of s p b] True assms(1)
  have "s' = release s" by simp
  with True show ?thesis by (simp add: release_def bdata_simps)
next
  case False
  from log_write_Inr[OF assms(1)] log_write_miss[of s p b] False assms
  have s': "s' = release (set_n (n (lh (logger s)) + 1)
        (bpin b (set_block (n (lh (logger s))) (blockno b) s)))"
    by simp
  have g: "logger s' = (logger s)\<lparr>lh := (lh (logger s))\<lparr>block :=
      (block (lh (logger s)))(n (lh (logger s)) := blockno b), n := n (lh (logger s)) + 1\<rparr>\<rparr>"
    by (simp add: s' release_def set_n_def bpin_def set_block_def)
  have "entries (logger s') = entries (logger s) @ [blockno b]"
    unfolding g by (rule entries_append[OF assms(2)])
  moreover have "refcnt s' = (refcnt s)(b := refcnt s b + 1)"
    by (simp add: s' release_def set_n_def bpin_def set_block_def)
  moreover have "bdata s' = bdata s"
    by (simp add: s' release_def set_n_def set_block_def bdata_simps)
  ultimately show ?thesis using False by (simp add: g)
qed

lemma log_write_entries:
  assumes "log_write p b s = Inr s'" "0 \<le> n (lh (logger s))"
  shows "0 \<le> n (lh (logger s'))
    \<and> entries (logger s') = (if blockno b \<in> set (entries (logger s)) then entries (logger s)
                             else entries (logger s) @ [blockno b])"
  using log_write_step[OF assms] assms(2)
  by (cases "in_header (logger s) (blockno b)") (simp_all add: in_header_entries)

lemma log_write_all_entries:
  "log_write_all p bs s = Inr s' \<Longrightarrow> 0 \<le> n (lh (logger s)) \<Longrightarrow> distinct (entries (logger s))
   \<Longrightarrow> distinct (entries (logger s'))
     \<and> set (entries (logger s')) = set (entries (logger s)) \<union> blockno ` set bs"
proof (induction bs arbitrary: s)
  case Nil
  then show ?case by simp
next
  case (Cons b bs)
  from Cons.prems(1) obtain s1 where w: "log_write p b s = Inr s1"
    and r: "log_write_all p bs s1 = Inr s'"
    by (auto split: sum.splits)
  from log_write_entries[OF w Cons.prems(2)] Cons.prems(3)
  have n1: "0 \<le> n (lh (logger s1))" and d1: "distinct (entries (logger s1))"
    and e1: "set (entries (logger s1)) = insert (blockno b) (set (entries (logger s)))"
    by (auto split: if_splits)
  from Cons.IH[OF r n1 d1] e1 show ?case by auto
qed

lemma log_write_all_same:
  "log_write_all p (replicate N b) s = Inr s' \<Longrightarrow> 0 \<le> n (lh (logger s))
   \<Longrightarrow> in_header (logger s) (blockno b)
   \<Longrightarrow> logger s' = logger s \<and> refcnt s' = refcnt s"
proof (induction N arbitrary: s)
  case 0
  then show ?case by simp
next
  case (Suc N)
  from Suc.prems(1) obtain s1 where w: "log_write p b s = Inr s1"
    and r: "log_write_all p (replicate N b) s1 = Inr s'"
    by (auto split: sum.splits)
  from log_write_step[OF w Suc.prems(2)] Suc.prems(3)
  have e: "logger s1 = logger s" "refcnt s1 = refcnt s" by simp_all
  from Suc.IH[OF r] Suc.prems(2,3) e show ?case by simp
qed

lemma in_header_appended:
  assumes "0 \<le> n (lh l)"
  shows "in_header (l\<lparr>lh := (lh l)\<lparr>block := (block (lh l))(n (lh l) := v), n := n (lh l) + 1\<rparr>\<rparr>) v"
  using assms by (auto simp: in_header_def intro!: bexI[of _ "n (lh l)"])

text \<open>
  Claim C3. A \<^verbatim>\<open>log_write\<close> of a block number that is already in the header leaves the
  count, the block list and the reference counts as they are; a \<^verbatim>\<open>log_write\<close> of a block
  number that is not in the header pins the buffer, stores the number at position \<open>n\<close> and
  adds one to \<open>n\<close>. So \<open>N \<ge> 1\<close> calls for the same block that all return add one entry
  when the block was not in the header and none when it was, and any sequence of calls
  that return keeps the entries distinct: a block has one entry, hence one log slot. The
  slot of entry \<open>i\<close> holds, after the commit, the contents that the home block has in the
  cache when the commit begins, whatever it held when \<^verbatim>\<open>log_write\<close> was called.
\<close>

theorem absorption:
  "(0 \<le> n (lh (logger s)) \<and> n (lh (logger s)) < LOGSIZE p
      \<and> n (lh (logger s)) < size_log (logger s) - 1 \<and> 1 \<le> outstanding (logger s)
      \<and> in_header (logger s) (blockno b)
    \<longrightarrow> (\<exists>s1. log_write p b s = Inr s1 \<and> n (lh (logger s1)) = n (lh (logger s))
           \<and> block (lh (logger s1)) = block (lh (logger s)) \<and> refcnt s1 = refcnt s))
   \<and> (0 \<le> n (lh (logger s)) \<and> n (lh (logger s)) < LOGSIZE p
      \<and> n (lh (logger s)) < size_log (logger s) - 1 \<and> 1 \<le> outstanding (logger s)
      \<and> \<not> in_header (logger s) (blockno b)
    \<longrightarrow> (\<exists>s1. log_write p b s = Inr s1 \<and> n (lh (logger s1)) = n (lh (logger s)) + 1
           \<and> block (lh (logger s1)) = (block (lh (logger s)))(n (lh (logger s)) := blockno b)
           \<and> refcnt s1 = (refcnt s)(b := refcnt s b + 1)))
   \<and> (0 < N \<and> log_write_all p (replicate N b) s = Inr s' \<and> 0 \<le> n (lh (logger s))
    \<longrightarrow> entries (logger s') =
           (if in_header (logger s) (blockno b) then entries (logger s)
            else entries (logger s) @ [blockno b])
        \<and> refcnt s' =
           (if in_header (logger s) (blockno b) then refcnt s
            else (refcnt s)(b := refcnt s b + 1)))
   \<and> (log_write_all p bs s = Inr s' \<and> 0 \<le> n (lh (logger s)) \<and> distinct (entries (logger s))
    \<longrightarrow> distinct (entries (logger s'))
        \<and> set (entries (logger s')) = set (entries (logger s)) \<union> blockno ` set bs)
   \<and> (hdr_fits p \<and> 0 < n (lh (logger s)) \<and> n (lh (logger s)) \<le> LOGSIZE p
      \<and> homes_apart (logger s)
    \<longrightarrow> (\<exists>s2. commit p s = Inr s2
           \<and> (\<forall>i\<in>{0..<n (lh (logger s))}. disk s2 (slot_buf s i) = bdata s (home_buf s i))))"
proof (intro conjI impI)
  assume a: "0 \<le> n (lh (logger s)) \<and> n (lh (logger s)) < LOGSIZE p
      \<and> n (lh (logger s)) < size_log (logger s) - 1 \<and> 1 \<le> outstanding (logger s)
      \<and> in_header (logger s) (blockno b)"
  with log_write_hit[of s p b] have "log_write p b s = Inr (release s)" by simp
  then show "\<exists>s1. log_write p b s = Inr s1 \<and> n (lh (logger s1)) = n (lh (logger s))
           \<and> block (lh (logger s1)) = block (lh (logger s)) \<and> refcnt s1 = refcnt s"
    by (simp add: release_def)
next
  assume a: "0 \<le> n (lh (logger s)) \<and> n (lh (logger s)) < LOGSIZE p
      \<and> n (lh (logger s)) < size_log (logger s) - 1 \<and> 1 \<le> outstanding (logger s)
      \<and> \<not> in_header (logger s) (blockno b)"
  with log_write_miss[of s p b] obtain s1 where w: "log_write p b s = Inr s1" by simp
  from log_write_step[OF w] a w
  show "\<exists>s1. log_write p b s = Inr s1 \<and> n (lh (logger s1)) = n (lh (logger s)) + 1
           \<and> block (lh (logger s1)) = (block (lh (logger s)))(n (lh (logger s)) := blockno b)
           \<and> refcnt s1 = (refcnt s)(b := refcnt s b + 1)"
    by simp
next
  assume a: "0 < N \<and> log_write_all p (replicate N b) s = Inr s' \<and> 0 \<le> n (lh (logger s))"
  then obtain M where N: "N = Suc M" by (cases N) auto
  with a obtain s1 where w: "log_write p b s = Inr s1"
    and r: "log_write_all p (replicate M b) s1 = Inr s'"
    by (auto split: sum.splits)
  from a have nn: "0 \<le> n (lh (logger s))" by simp
  note st = log_write_step[OF w nn]
  have both: "entries (logger s') =
           (if in_header (logger s) (blockno b) then entries (logger s)
            else entries (logger s) @ [blockno b])
        \<and> refcnt s' =
           (if in_header (logger s) (blockno b) then refcnt s
            else (refcnt s)(b := refcnt s b + 1))"
  proof (cases "in_header (logger s) (blockno b)")
    case True
    with st have e: "logger s1 = logger s" "refcnt s1 = refcnt s" by simp_all
    from log_write_all_same[OF r] nn True e show ?thesis by simp
  next
    case False
    with st have e: "entries (logger s1) = entries (logger s) @ [blockno b]"
      "n (lh (logger s1)) = n (lh (logger s)) + 1"
      "refcnt s1 = (refcnt s)(b := refcnt s b + 1)"
      by simp_all
    have "in_header (logger s1) (blockno b)"
      by (simp add: in_header_entries e)
    from log_write_all_same[OF r _ this] nn e False show ?thesis by simp
  qed
  from both show "entries (logger s') =
           (if in_header (logger s) (blockno b) then entries (logger s)
            else entries (logger s) @ [blockno b])"
    and "refcnt s' =
           (if in_header (logger s) (blockno b) then refcnt s
            else (refcnt s)(b := refcnt s b + 1))"
    by blast+
next
  assume "log_write_all p bs s = Inr s' \<and> 0 \<le> n (lh (logger s))
     \<and> distinct (entries (logger s))"
  then show "distinct (entries (logger s'))" and
    "set (entries (logger s')) = set (entries (logger s)) \<union> blockno ` set bs"
    using log_write_all_entries[of p bs s s'] by simp_all
next
  assume a: "hdr_fits p \<and> 0 < n (lh (logger s)) \<and> n (lh (logger s)) \<le> LOGSIZE p
      \<and> homes_apart (logger s)"
  then have ap: "homes_apart (logger s)" by simp
  from a commit_views[of p s] obtain s2 where
    r: "commit p s = Inr s2" and d: "disk s2 = replay (commit_writes s) (disk s)"
    by blast
  have "\<forall>i\<in>{0..<n (lh (logger s))}. disk s2 (slot_buf s i) = bdata s (home_buf s i)"
    unfolding d using replay_commit_writes_slot[OF ap] by simp
  with r show "\<exists>s2. commit p s = Inr s2
           \<and> (\<forall>i\<in>{0..<n (lh (logger s))}. disk s2 (slot_buf s i) = bdata s (home_buf s i))"
    by blast
qed

theorem absorption_witness:
  "0 \<le> n (lh (logger ex_tx)) \<and> n (lh (logger ex_tx)) < LOGSIZE xv6_params
   \<and> n (lh (logger ex_tx)) < size_log (logger ex_tx) - 1 \<and> 1 \<le> outstanding (logger ex_tx)
   \<and> in_header (logger ex_tx) (blockno (1, 40))
   \<and> (\<exists>s1. log_write xv6_params (1, 40) ex_tx = Inr s1 \<and> n (lh (logger s1)) = 2
         \<and> block (lh (logger s1)) = block (lh (logger ex_tx)) \<and> refcnt s1 = refcnt ex_tx)
   \<and> 0 \<le> n (lh (logger (buf_modify (1, 40) (\<lambda>_. 5) ex_sys))) \<and> n (lh (logger (buf_modify (1, 40) (\<lambda>_. 5) ex_sys))) < LOGSIZE xv6_params
   \<and> n (lh (logger (buf_modify (1, 40) (\<lambda>_. 5) ex_sys))) < size_log (logger (buf_modify (1, 40) (\<lambda>_. 5) ex_sys)) - 1 \<and> 1 \<le> outstanding (logger (buf_modify (1, 40) (\<lambda>_. 5) ex_sys))
   \<and> \<not> in_header (logger (buf_modify (1, 40) (\<lambda>_. 5) ex_sys)) (blockno (1, 40))
   \<and> (\<exists>s1. log_write xv6_params (1, 40) (buf_modify (1, 40) (\<lambda>_. 5) ex_sys) = Inr s1 \<and> n (lh (logger s1)) = 1
         \<and> block (lh (logger s1)) 0 = 40 \<and> refcnt s1 (1, 40) = 1)
   \<and> (0::nat) < 3 \<and> distinct (entries (logger (buf_modify (1, 40) (\<lambda>_. 5) ex_sys)))
   \<and> (\<exists>s'. log_write_all xv6_params (replicate 3 (1, 40)) (buf_modify (1, 40) (\<lambda>_. 5) ex_sys) = Inr s'
         \<and> entries (logger s') = [40] \<and> refcnt s' (1, 40) = 1
         \<and> distinct (entries (logger s')) \<and> set (entries (logger s')) = {40})
   \<and> hdr_fits xv6_params \<and> 0 < n (lh (logger (buf_modify (1, 40) (\<lambda>_. 8) ex_tx)))
   \<and> n (lh (logger (buf_modify (1, 40) (\<lambda>_. 8) ex_tx))) \<le> LOGSIZE xv6_params \<and> homes_apart (logger (buf_modify (1, 40) (\<lambda>_. 8) ex_tx))
   \<and> (\<exists>s2. commit xv6_params (buf_modify (1, 40) (\<lambda>_. 8) ex_tx) = Inr s2
         \<and> disk s2 (1, 3) = (\<lambda>_. 8) \<and> disk s2 (1, 4) = (\<lambda>_. 9))"
proof -
  define m0 where "m0 = buf_modify (1, 40) (\<lambda>_. 5) ex_sys"
  define sc where "sc = buf_modify (1, 40) (\<lambda>_. 8) ex_tx"
  define b :: bufid where "b = (1, 40)"
  have bn: "blockno b = 40" by (simp add: b_def blockno_def)
  have lt: "logger ex_tx = ex_log\<lparr>lh := \<lparr>n = 2, block = (\<lambda>_. 0)(0 := 40, 1 := 41)\<rparr>\<rparr>"
    "refcnt ex_tx = (\<lambda>_. 0)"
    by (simp_all add: ex_tx_def ex_sys_def boot_def)
  have lm: "logger m0 = ex_log" "refcnt m0 = (\<lambda>_. 0)"
    by (simp_all add: m0_def buf_modify_def ex_sys_def boot_def)
  have lc: "logger sc = logger ex_tx"
    by (simp add: sc_def buf_modify_def)
  have ih: "in_header (logger ex_tx) (blockno b)"
    unfolding in_header_def lt bn by (rule bexI[of _ 0]) (simp_all add: ex_log_def)
  have a1: "0 \<le> n (lh (logger ex_tx)) \<and> n (lh (logger ex_tx)) < LOGSIZE xv6_params
   \<and> n (lh (logger ex_tx)) < size_log (logger ex_tx) - 1 \<and> 1 \<le> outstanding (logger ex_tx)
   \<and> in_header (logger ex_tx) (blockno b)"
    using ih by (simp add: lt ex_log_def xv6_params_def)
  have nih: "\<not> in_header (logger m0) (blockno b)"
    by (rule in_header_empty) (simp add: lm ex_log_def)
  have a2: "0 \<le> n (lh (logger m0)) \<and> n (lh (logger m0)) < LOGSIZE xv6_params
   \<and> n (lh (logger m0)) < size_log (logger m0) - 1 \<and> 1 \<le> outstanding (logger m0)
   \<and> \<not> in_header (logger m0) (blockno b)"
    using nih by (simp add: lm ex_log_def xv6_params_def)
  have em: "entries (logger m0) = []" by (simp add: entries_def lm ex_log_def)
  from absorption[of ex_tx xv6_params b] a1
  have c1: "\<exists>s1. log_write xv6_params b ex_tx = Inr s1 \<and> n (lh (logger s1)) = 2
         \<and> block (lh (logger s1)) = block (lh (logger ex_tx)) \<and> refcnt s1 = refcnt ex_tx"
    by (simp add: lt)
  from absorption[of m0 xv6_params b] a2 obtain s1 where
    w1: "log_write xv6_params b m0 = Inr s1" and n1: "n (lh (logger s1)) = n (lh (logger m0)) + 1"
    and b1: "block (lh (logger s1)) = (block (lh (logger m0)))(n (lh (logger m0)) := blockno b)"
    and f1: "refcnt s1 = (refcnt m0)(b := refcnt m0 b + 1)"
    by blast
  have v1: "n (lh (logger s1)) = 1" "block (lh (logger s1)) 0 = 40" "refcnt s1 (1, 40) = 1"
    by (simp_all add: n1 b1 f1 lm ex_log_def bn) (simp add: b_def)
  have c2: "\<exists>s1. log_write xv6_params b m0 = Inr s1 \<and> n (lh (logger s1)) = 1
         \<and> block (lh (logger s1)) 0 = 40 \<and> refcnt s1 (1, 40) = 1"
    using w1 v1 by blast
  have g1: "size_log (logger s1) = 31" "outstanding (logger s1) = 1"
    using log_write_frame[OF w1] w1
    by (auto simp: lm ex_log_def log_write_def Let_def acquire_def release_def set_block_def
        set_n_def bpin_def split: if_splits sum.splits)
  have ih1: "in_header (logger s1) (blockno b)"
    unfolding in_header_def v1(1) bn by (rule bexI[of _ 0]) (simp_all add: v1)
  have w2: "log_write xv6_params b s1 = Inr (release s1)"
    by (rule log_write_hit) (simp_all add: v1 g1 ih1 xv6_params_def)
  have w3: "log_write xv6_params b (release s1) = Inr (release (release s1))"
    by (rule log_write_hit) (simp_all add: release_def v1 g1 ih1 xv6_params_def)
  have r3: "replicate 3 b = [b, b, b]" by (simp add: numeral_3_eq_3)
  have wa: "log_write_all xv6_params (replicate 3 b) m0 = Inr (release (release s1))"
    by (simp add: r3 w1 w2 w3)
  have p3: "(0::nat) < 3 \<and> log_write_all xv6_params (replicate 3 b) m0 = Inr (release (release s1))
     \<and> 0 \<le> n (lh (logger m0))"
    using wa a2 by simp
  from absorption[of m0 xv6_params b 3 "release (release s1)"] p3
  have "entries (logger (release (release s1))) =
           (if in_header (logger m0) (blockno b) then entries (logger m0)
            else entries (logger m0) @ [blockno b])
        \<and> refcnt (release (release s1)) =
           (if in_header (logger m0) (blockno b) then refcnt m0
            else (refcnt m0)(b := refcnt m0 b + 1))"
    by blast
  with nih have e3': "entries (logger (release (release s1))) = entries (logger m0) @ [blockno b]"
    "refcnt (release (release s1)) = (refcnt m0)(b := refcnt m0 b + 1)"
    by simp_all
  have e3: "entries (logger (release (release s1))) = [40]"
    "refcnt (release (release s1)) (1, 40) = 1"
    unfolding e3' em bn by (simp_all add: lm(2) b_def)
  have p4: "log_write_all xv6_params (replicate 3 b) m0 = Inr (release (release s1))
     \<and> 0 \<le> n (lh (logger m0)) \<and> distinct (entries (logger m0))"
    using wa a2 by (simp add: em)
  from absorption[of m0 xv6_params b 3 "release (release s1)" "replicate 3 b"] p4
  have "distinct (entries (logger (release (release s1))))
        \<and> set (entries (logger (release (release s1))))
            = set (entries (logger m0)) \<union> blockno ` set (replicate 3 b)"
    by blast
  then have d3: "distinct (entries (logger (release (release s1))))"
    "set (entries (logger (release (release s1)))) = {40}"
    unfolding em by (simp_all add: bn)
  have c3: "\<exists>s'. log_write_all xv6_params (replicate 3 b) m0 = Inr s'
         \<and> entries (logger s') = [40] \<and> refcnt s' (1, 40) = 1
         \<and> distinct (entries (logger s')) \<and> set (entries (logger s')) = {40}"
    using wa e3 d3 by blast
  have a4: "hdr_fits xv6_params \<and> 0 < n (lh (logger sc))
   \<and> n (lh (logger sc)) \<le> LOGSIZE xv6_params \<and> homes_apart (logger sc)"
    using hdr_fits_xv6 homes_apart_ex_tx by (simp add: lc ex_tx_views xv6_params_def)
  have vc: "slot_buf sc 0 = (1, 3)" "slot_buf sc 1 = (1, 4)"
    "bdata sc (home_buf sc 0) = (\<lambda>_. 8)" "bdata sc (home_buf sc 1) = (\<lambda>_. 9)"
    by (simp_all add: slot_buf_def home_buf_def lc lt ex_log_def)
      (simp_all add: sc_def buf_modify_def bdata_def ex_tx_def)
  from absorption[of sc xv6_params] a4 obtain s2 where
    r2: "commit xv6_params sc = Inr s2"
    and sl: "\<forall>i\<in>{0..<n (lh (logger sc))}. disk s2 (slot_buf sc i) = bdata sc (home_buf sc i)"
    by blast
  have "(0::int) \<in> {0..<n (lh (logger sc))}" "(1::int) \<in> {0..<n (lh (logger sc))}"
    by (simp_all add: lc ex_tx_views)
  from bspec[OF sl this(1)] bspec[OF sl this(2)]
  have "disk s2 (1, 3) = (\<lambda>_. 8)" "disk s2 (1, 4) = (\<lambda>_. 9)"
    by (simp_all add: vc)
  with r2 have c4: "\<exists>s2. commit xv6_params sc = Inr s2
         \<and> disk s2 (1, 3) = (\<lambda>_. 8) \<and> disk s2 (1, 4) = (\<lambda>_. 9)"
    by blast
  have "(0::nat) < 3" "distinct (entries (logger m0))" by (simp_all add: em)
  with a1 c1 a2 c2 c3 a4 c4 show ?thesis
    unfolding m0_def sc_def b_def by blast
qed

end
